theory Spec2Isabelle
  imports Main "HOL-Library.Word"
begin

section \<open>JavaScript strings\<close>

text \<open>
  A JavaScript string is a sequence of UTF-16 code units. ASCII literals of the source are
  written with \<open>js\<close>; a code unit outside ASCII is written as its number.
\<close>

type_synonym code_unit = "16 word"
type_synonym jsstring = "code_unit list"

definition js :: "string \<Rightarrow> jsstring" where
  "js s = map of_char s"

definition nl :: code_unit where
  "nl = 0x0A"

definition backtick :: code_unit where
  "backtick = 0x60"

text \<open>
  The class \<open>\s\<close> of a regular expression and the characters removed by
  \<open>String.prototype.trim\<close> are the same set: ECMAScript WhiteSpace and LineTerminator.
\<close>

definition is_space :: "code_unit \<Rightarrow> bool" where
  "is_space c =
     (c = 0x09 \<or> c = 0x0A \<or> c = 0x0B \<or> c = 0x0C \<or> c = 0x0D \<or> c = 0x20 \<or> c = 0xA0
      \<or> c = 0x1680 \<or> (0x2000 \<le> c \<and> c \<le> 0x200A) \<or> c = 0x2028 \<or> c = 0x2029
      \<or> c = 0x202F \<or> c = 0x205F \<or> c = 0x3000 \<or> c = 0xFEFF)"

text \<open>The class \<open>\w\<close>: ASCII letters, digits and the underscore.\<close>

definition is_word :: "code_unit \<Rightarrow> bool" where
  "is_word c =
     ((0x41 \<le> c \<and> c \<le> 0x5A) \<or> (0x61 \<le> c \<and> c \<le> 0x7A) \<or> (0x30 \<le> c \<and> c \<le> 0x39)
      \<or> c = 0x5F)"

definition trim :: "jsstring \<Rightarrow> jsstring" where
  "trim s = rev (dropWhile is_space (rev (dropWhile is_space s)))"

text \<open>
  Case folding of the flag \<open>i\<close> without the flag \<open>u\<close>: a code unit is compared through
  its upper case, and a code unit outside ASCII never folds to an ASCII one. Against the
  ASCII pattern \<open>ARCHIVO:\<close> only the folding of the ASCII letters matters.
\<close>

definition canonicalize :: "code_unit \<Rightarrow> code_unit" where
  "canonicalize c = (if 0x61 \<le> c \<and> c \<le> 0x7A then c - 0x20 else c)"

definition starts_with :: "jsstring \<Rightarrow> jsstring \<Rightarrow> bool" where
  "starts_with p s = (take (length p) s = p)"

definition starts_with_ci :: "jsstring \<Rightarrow> jsstring \<Rightarrow> bool" where
  "starts_with_ci p s =
     (length p \<le> length s \<and> map canonicalize (take (length p) s) = map canonicalize p)"

section \<open>Response parser\<close>

text \<open>
  \<open>String.prototype.match\<close> with a regular expression without the flag \<open>g\<close> returns the
  match at the leftmost start position; at one start position the quantifiers backtrack:
  a greedy one tries the longest repetition first, a lazy one the shortest.
\<close>

text \<open>
  A greedy star followed by the rest \<open>k\<close> of the pattern: \<open>n\<close> is the longest
  repetition, and shorter ones are tried while the rest fails.
\<close>

fun greedy :: "nat \<Rightarrow> (jsstring \<Rightarrow> 'a option) \<Rightarrow> jsstring \<Rightarrow> 'a option" where
  "greedy 0 k s = k s"
| "greedy (Suc n) k s =
     (case k (drop (Suc n) s) of Some r \<Rightarrow> Some r | None \<Rightarrow> greedy n k s)"

definition star :: "(code_unit \<Rightarrow> bool) \<Rightarrow> (jsstring \<Rightarrow> 'a option) \<Rightarrow> jsstring \<Rightarrow> 'a option" where
  "star p k s = greedy (length (takeWhile p s)) k s"

text \<open>The leftmost start position at which the anchored matcher \<open>m\<close> succeeds.\<close>

fun leftmost :: "(jsstring \<Rightarrow> 'a option) \<Rightarrow> jsstring \<Rightarrow> 'a option" where
  "leftmost m [] = m []"
| "leftmost m (c # cs) = (case m (c # cs) of Some r \<Rightarrow> Some r | None \<Rightarrow> leftmost m cs)"

text \<open>
  \<open>([^\n]+)\<close> at the end of the pattern: the longest run of code units other than the
  line feed, at least one. Nothing follows it, so the longest run is the match.
\<close>

definition not_newline_plus :: "jsstring \<Rightarrow> jsstring option" where
  "not_newline_plus s =
     (let g = takeWhile (\<lambda>c. c \<noteq> nl) s in if g = [] then None else Some g)"

text \<open>\<open>/ARCHIVO:\s*([^\n]+)/i\<close> anchored at the start of \<open>s\<close>; the result is group 1.\<close>

definition fileMatch_at :: "jsstring \<Rightarrow> jsstring option" where
  "fileMatch_at s =
     (if starts_with_ci (js ''ARCHIVO:'') s
      then star is_space not_newline_plus (drop 8 s)
      else None)"

definition fileMatch :: "jsstring \<Rightarrow> jsstring option" where
  "fileMatch response = leftmost fileMatch_at response"

text \<open>
  \<open>([\s\S]*?)\n```\<close>: the lazy group takes the fewest code units after which a line
  feed and three backticks follow. \<open>acc\<close> is the group so far.
\<close>

definition closing_fence :: jsstring where
  "closing_fence = [nl, backtick, backtick, backtick]"

fun lazy_until_fence :: "jsstring \<Rightarrow> jsstring \<Rightarrow> jsstring option" where
  "lazy_until_fence acc [] = None"
| "lazy_until_fence acc (c # cs) =
     (if starts_with closing_fence (c # cs) then Some acc
      else lazy_until_fence (acc @ [c]) cs)"

text \<open>The line feed after the language tag, then the lazy group.\<close>

fun newline_then_block :: "jsstring \<Rightarrow> jsstring option" where
  "newline_then_block [] = None"
| "newline_then_block (c # cs) = (if c = nl then lazy_until_fence [] cs else None)"

text \<open>\<open>/```[\w]*\n([\s\S]*?)\n```/\<close> anchored at the start of \<open>s\<close>; the result is group 1.\<close>

definition codeMatch_at :: "jsstring \<Rightarrow> jsstring option" where
  "codeMatch_at s =
     (if starts_with [backtick, backtick, backtick] s
      then star is_word newline_then_block (drop 3 s)
      else None)"

definition codeMatch :: "jsstring \<Rightarrow> jsstring option" where
  "codeMatch response = leftmost codeMatch_at response"

record ParsedEdit =
  filePath :: jsstring
  codeBlock :: jsstring

text \<open>
  \<open>parseAIResponse\<close> returns \<open>null\<close> (here \<open>None\<close>) when either pattern does not match.
  The argument is a string, so \<open>match\<close> does not throw and the \<open>catch\<close> branch is not
  taken.
\<close>

definition parseAIResponse :: "jsstring \<Rightarrow> ParsedEdit option" where
  "parseAIResponse response =
     (case fileMatch response of
        None \<Rightarrow> None
      | Some g \<Rightarrow>
          (let path = trim g in
           case codeMatch response of
             None \<Rightarrow> None
           | Some block \<Rightarrow> Some \<lparr>filePath = path, codeBlock = block\<rparr>))"

subsection \<open>The parser contract in the words of the specification\<close>

text \<open>
  The label line: the text that follows the first occurrence of the label \<open>ARCHIVO:\<close>
  (in any letter case) up to the end of that line.
\<close>

fun label_line :: "jsstring \<Rightarrow> jsstring option" where
  "label_line [] = None"
| "label_line (c # cs) =
     (if starts_with_ci (js ''ARCHIVO:'') (c # cs)
      then Some (takeWhile (\<lambda>x. x \<noteq> nl) (drop 8 (c # cs)))
      else label_line cs)"

text \<open>
  An opening fence at the start of \<open>s\<close>: three backticks, an optional language tag of
  word characters and a line feed. The result is the text after it.
\<close>

definition opening_fence :: "jsstring \<Rightarrow> jsstring option" where
  "opening_fence s =
     (if starts_with [backtick, backtick, backtick] s
      then (case dropWhile is_word (drop 3 s) of
              [] \<Rightarrow> None
            | c # body \<Rightarrow> if c = nl then Some body else None)
      else None)"

fun after_first_opening :: "jsstring \<Rightarrow> jsstring option" where
  "after_first_opening [] = None"
| "after_first_opening (c # cs) =
     (case opening_fence (c # cs) of Some body \<Rightarrow> Some body | None \<Rightarrow> after_first_opening cs)"

text \<open>The text before the first line feed that is followed by a closing fence.\<close>

fun before_closing :: "jsstring \<Rightarrow> jsstring option" where
  "before_closing [] = None"
| "before_closing (c # cs) =
     (if starts_with closing_fence (c # cs) then Some []
      else map_option ((#) c) (before_closing cs))"

text \<open>The interior of the first fenced block: after the first opening fence, before
  the first closing fence that follows it.\<close>

definition first_fenced_block :: "jsstring \<Rightarrow> jsstring option" where
  "first_fenced_block s =
     (case after_first_opening s of None \<Rightarrow> None | Some body \<Rightarrow> before_closing body)"

text \<open>The text that follows the first occurrence of the label, to the end of the reply.\<close>

fun after_label :: "jsstring \<Rightarrow> jsstring option" where
  "after_label [] = None"
| "after_label (c # cs) =
     (if starts_with_ci (js ''ARCHIVO:'') (c # cs) then Some (drop 8 (c # cs))
      else after_label cs)"

text \<open>
  A fenced block with any language tag, as the comment at the pattern has it
  (\<open>cualquier_lenguaje\<close>): an opening fence is three backticks, a tag of any code units
  but the line feed and the backtick, and a line feed. The results are the tag and the
  text after the opening fence; \<open>first_tagged_block\<close> is the tag and the interior of the
  first fenced block.
\<close>

definition tagged_opening :: "jsstring \<Rightarrow> (jsstring \<times> jsstring) option" where
  "tagged_opening s =
     (if starts_with [backtick, backtick, backtick] s
      then (case dropWhile (\<lambda>c. c \<noteq> nl \<and> c \<noteq> backtick) (drop 3 s) of
              [] \<Rightarrow> None
            | c # body \<Rightarrow>
                if c = nl
                then Some (takeWhile (\<lambda>c. c \<noteq> nl \<and> c \<noteq> backtick) (drop 3 s), body)
                else None)
      else None)"

fun first_tagged_opening :: "jsstring \<Rightarrow> (jsstring \<times> jsstring) option" where
  "first_tagged_opening [] = None"
| "first_tagged_opening (c # cs) =
     (case tagged_opening (c # cs) of
        Some tb \<Rightarrow> Some tb
      | None \<Rightarrow> first_tagged_opening cs)"

definition first_tagged_block :: "jsstring \<Rightarrow> (jsstring \<times> jsstring) option" where
  "first_tagged_block s =
     (case first_tagged_opening s of
        None \<Rightarrow> None
      | Some (tag, body) \<Rightarrow> map_option (Pair tag) (before_closing body))"

section \<open>Project context collector\<close>

text \<open>
  The directory tree as \<open>fs.stat\<close>, \<open>fs.readdir\<close> and \<open>fs.readFile\<close> show it during one
  walk. A directory lists its entries in the order of \<open>readdir\<close>; entry names are single
  path components.
\<close>

datatype node =
    RegFile jsstring
  | BadFile
  | Directory "(jsstring \<times> node) list"
  | BadDirectory
  | NoStat
  | Special

text \<open>
  \<open>RegFile content\<close>: a regular file that \<open>readFile\<close> reads as \<open>content\<close>;
  \<open>BadFile\<close>: a regular file whose read fails;
  \<open>BadDirectory\<close>: a directory whose \<open>readdir\<close> fails;
  \<open>NoStat\<close>: an entry whose \<open>stat\<close> fails;
  \<open>Special\<close>: an entry that is neither a file nor a directory.
\<close>

text \<open>
  What \<open>fs.readFile(fullPath, 'utf8')\<close> makes of a regular file on disk. The call throws
  when the bytes cannot be read (\<open>None\<close>). It does not throw on bytes that are not UTF-8:
  the decoder of Node.js, the parameter \<open>decode\<close>, puts U+FFFD in the place of every
  invalid sequence and returns a string for every byte sequence.
\<close>

definition utf8_file :: "(8 word list \<Rightarrow> jsstring) \<Rightarrow> 8 word list option \<Rightarrow> node" where
  "utf8_file decode bytes = (case bytes of None \<Rightarrow> BadFile | Some bs \<Rightarrow> RegFile (decode bs))"

definition isDirectory :: "node \<Rightarrow> bool" where
  "isDirectory n = (case n of Directory _ \<Rightarrow> True | BadDirectory \<Rightarrow> True | _ \<Rightarrow> False)"

definition isFile :: "node \<Rightarrow> bool" where
  "isFile n = (case n of RegFile _ \<Rightarrow> True | BadFile \<Rightarrow> True | _ \<Rightarrow> False)"

definition readFile :: "node \<Rightarrow> jsstring option" where
  "readFile n = (case n of RegFile content \<Rightarrow> Some content | _ \<Rightarrow> None)"

definition ignoredItems :: "jsstring list" where
  "ignoredItems =
     [js ''node_modules'', js ''.git'', js ''.vscode'', js ''.DS_Store'',
      js ''package-lock.json'', js ''yarn.lock'', js ''index.js'', js ''.env'',
      js ''dist'', js ''build'', js ''coverage'']"

definition ignoredExtensions :: "jsstring list" where
  "ignoredExtensions =
     [js ''.exe'', js ''.dll'', js ''.so'', js ''.dylib'',
      js ''.jpg'', js ''.jpeg'', js ''.png'', js ''.gif'', js ''.bmp'', js ''.ico'',
      js ''.mp3'', js ''.mp4'', js ''.avi'', js ''.mov'',
      js ''.zip'', js ''.rar'', js ''.tar'', js ''.gz'',
      js ''.pdf'', js ''.doc'', js ''.docx'']"

definition dot :: code_unit where
  "dot = 0x2E"

definition slash :: code_unit where
  "slash = 0x2F"

text \<open>
  \<open>path.extname\<close> of Node.js on one path component: from the last dot to the end; empty
  when there is no dot, when the only dot is the first character, and for \<open>..\<close>.
\<close>

definition extname :: "jsstring \<Rightarrow> jsstring" where
  "extname name =
     (let after = length (takeWhile (\<lambda>c. c \<noteq> dot) (rev name)) in
      if after = length name \<or> Suc after = length name \<or> name = [dot, dot] then []
      else drop (length name - Suc after) name)"

text \<open>
  \<open>path.relative(basePath, path.join(dirPath, item))\<close>: \<open>dirPath\<close> is kept as the list of
  components below \<open>basePath\<close>, and the relative path joins them with the separator.
\<close>

fun join_path :: "jsstring list \<Rightarrow> jsstring" where
  "join_path [] = []"
| "join_path [x] = x"
| "join_path (x # y # ys) = x @ slash # join_path (y # ys)"

text \<open>The lines the collector prints, with the path they name.\<close>

datatype warning = Unreadable jsstring | NoAccess jsstring | ReadDirError "jsstring list"

definition file_block :: "jsstring \<Rightarrow> jsstring \<Rightarrow> jsstring" where
  "file_block relativePath content =
     js ''--- INICIO ARCHIVO: '' @ relativePath @ js '' ---\<newline>'' @ content
     @ js ''\<newline>--- FIN ARCHIVO: '' @ relativePath @ js '' ---\<newline>\<newline>''"

text \<open>
  \<open>getProjectContext\<close> returns the context and the lines it printed. \<open>for_items\<close> is the
  loop over the listing, with the context and the printed lines so far. \<open>lower\<close> is
  \<open>String.prototype.toLowerCase\<close>, whose Unicode tables are a parameter.
\<close>

fun getProjectContext ::
    "(jsstring \<Rightarrow> jsstring) \<Rightarrow> jsstring list \<Rightarrow> node \<Rightarrow> jsstring \<times> warning list"
  and for_items ::
    "(jsstring \<Rightarrow> jsstring) \<Rightarrow> jsstring list \<Rightarrow> (jsstring \<times> node) list \<Rightarrow>
       jsstring \<times> warning list \<Rightarrow> jsstring \<times> warning list"
where
  "getProjectContext lower dirPath (Directory items) = for_items lower dirPath items ([], [])"
| "getProjectContext lower dirPath (RegFile v) = ([], [ReadDirError dirPath])"
| "getProjectContext lower dirPath BadFile = ([], [ReadDirError dirPath])"
| "getProjectContext lower dirPath BadDirectory = ([], [ReadDirError dirPath])"
| "getProjectContext lower dirPath NoStat = ([], [ReadDirError dirPath])"
| "getProjectContext lower dirPath Special = ([], [ReadDirError dirPath])"
| "for_items lower dirPath [] (context, out) = (context, out)"
| "for_items lower dirPath ((item, n) # rest) (context, out) =
     (let relativePath = join_path (dirPath @ [item]) in
      if item \<in> set ignoredItems then for_items lower dirPath rest (context, out)
      else if n = NoStat then for_items lower dirPath rest (context, out @ [NoAccess relativePath])
      else if isDirectory n then
        (let (subContext, sub_out) = getProjectContext lower (dirPath @ [item]) n
         in for_items lower dirPath rest (context @ subContext, out @ sub_out))
      else if isFile n then
        (if lower (extname item) \<in> set ignoredExtensions
         then for_items lower dirPath rest (context, out)
         else case readFile n of
                Some content \<Rightarrow>
                  for_items lower dirPath rest (context @ file_block relativePath content, out)
              | None \<Rightarrow>
                  for_items lower dirPath rest (context, out @ [Unreadable relativePath]))
      else for_items lower dirPath rest (context, out))"

text \<open>What one iteration of the loop adds for the entry \<open>e\<close>: context and printed lines.\<close>

definition visit ::
    "(jsstring \<Rightarrow> jsstring) \<Rightarrow> jsstring list \<Rightarrow> jsstring \<times> node \<Rightarrow> jsstring \<times> warning list" where
  "visit lower dirPath e =
     (let item = fst e; n = snd e; relativePath = join_path (dirPath @ [item]) in
      if item \<in> set ignoredItems then ([], [])
      else if n = NoStat then ([], [NoAccess relativePath])
      else if isDirectory n then getProjectContext lower (dirPath @ [item]) n
      else if isFile n then
        (if lower (extname item) \<in> set ignoredExtensions then ([], [])
         else case readFile n of
                Some content \<Rightarrow> (file_block relativePath content, [])
              | None \<Rightarrow> ([], [Unreadable relativePath]))
      else ([], []))"

subsection \<open>The collector contract in the words of the specification\<close>

text \<open>
  Every entry below a directory with its path from that directory, depth first in
  listing order: an entry, then everything below it, then the next entry.
\<close>

fun entries_of :: "node \<Rightarrow> (jsstring list \<times> node) list"
  and entries_list :: "(jsstring \<times> node) list \<Rightarrow> (jsstring list \<times> node) list"
where
  "entries_of (Directory items) = entries_list items"
| "entries_of (RegFile v) = []"
| "entries_of BadFile = []"
| "entries_of BadDirectory = []"
| "entries_of NoStat = []"
| "entries_of Special = []"
| "entries_list [] = []"
| "entries_list ((name, n) # rest) =
     ([name], n) # map (\<lambda>(p, m). (name # p, m)) (entries_of n) @ entries_list rest"

definition below :: "jsstring \<times> node \<Rightarrow> (jsstring list \<times> node) list" where
  "below e = ([fst e], snd e) # map (\<lambda>(p, m). (fst e # p, m)) (entries_of (snd e))"

text \<open>\<open>at_path root p m\<close>: following the names \<open>p\<close> from \<open>root\<close> leads to \<open>m\<close>.\<close>

fun at_path :: "node \<Rightarrow> jsstring list \<Rightarrow> node \<Rightarrow> bool"
  and in_items :: "(jsstring \<times> node) list \<Rightarrow> jsstring \<Rightarrow> jsstring list \<Rightarrow> node \<Rightarrow> bool"
where
  "at_path n [] m = (n = m)"
| "at_path (Directory items) (x # xs) m = in_items items x xs m"
| "at_path (RegFile v) (x # xs) m = False"
| "at_path BadFile (x # xs) m = False"
| "at_path BadDirectory (x # xs) m = False"
| "at_path NoStat (x # xs) m = False"
| "at_path Special (x # xs) m = False"
| "in_items [] x xs m = False"
| "in_items ((name, n) # rest) x xs m = ((name = x \<and> at_path n xs m) \<or> in_items rest x xs m)"

text \<open>
  A path is ignored when one of its names (the entry's own or a directory's above it) is
  in the ignore set, or when the lower-cased extension of its last name is in the
  extension set.
\<close>

definition ignored_path :: "(jsstring \<Rightarrow> jsstring) \<Rightarrow> jsstring list \<Rightarrow> bool" where
  "ignored_path lower p =
     ((\<exists>x\<in>set p. x \<in> set ignoredItems) \<or> lower (extname (last p)) \<in> set ignoredExtensions)"

definition pick ::
    "(jsstring \<Rightarrow> jsstring) \<Rightarrow> jsstring list \<times> node \<Rightarrow> (jsstring list \<times> jsstring) option" where
  "pick lower e =
     (case readFile (snd e) of
        Some content \<Rightarrow> if ignored_path lower (fst e) then None else Some (fst e, content)
      | None \<Rightarrow> None)"

text \<open>The readable files that are not ignored, with their text, in depth-first order.\<close>

definition context_files ::
    "(jsstring \<Rightarrow> jsstring) \<Rightarrow> node \<Rightarrow> (jsstring list \<times> jsstring) list" where
  "context_files lower root = List.map_filter (pick lower) (entries_of root)"

definition render :: "jsstring list \<Rightarrow> jsstring list \<times> jsstring \<Rightarrow> jsstring" where
  "render dirPath e = file_block (join_path (dirPath @ fst e)) (snd e)"

text \<open>The tree without the entries named \<open>nm\<close>, at every depth.\<close>

fun without_name :: "jsstring \<Rightarrow> node \<Rightarrow> node"
  and without_name_items :: "jsstring \<Rightarrow> (jsstring \<times> node) list \<Rightarrow> (jsstring \<times> node) list"
where
  "without_name nm (Directory items) = Directory (without_name_items nm items)"
| "without_name nm (RegFile v) = RegFile v"
| "without_name nm BadFile = BadFile"
| "without_name nm BadDirectory = BadDirectory"
| "without_name nm NoStat = NoStat"
| "without_name nm Special = Special"
| "without_name_items nm [] = []"
| "without_name_items nm ((name, n) # rest) =
     (if name = nm then without_name_items nm rest
      else (name, without_name nm n) # without_name_items nm rest)"

section \<open>Preview\<close>

text \<open>\<open>String.prototype.split('\n')\<close>: the empty string splits into one empty line.\<close>

function split_lines :: "jsstring \<Rightarrow> jsstring list" where
  "split_lines s =
     takeWhile (\<lambda>c. c \<noteq> nl) s #
     (case dropWhile (\<lambda>c. c \<noteq> nl) s of [] \<Rightarrow> [] | c # rest \<Rightarrow> split_lines rest)"
  by pat_completeness auto
termination
proof (relation "measure length")
  show "wf (measure length)" by simp
next
  fix s :: jsstring and c rest
  assume "dropWhile (\<lambda>c. c \<noteq> nl) s = c # rest"
  then have "length (c # rest) \<le> length s" by (metis length_dropWhile_le)
  then show "(rest, s) \<in> measure length" by simp
qed

declare split_lines.simps [simp del]

text \<open>\<open>Array.prototype.join('\n')\<close>.\<close>

fun join_lines :: "jsstring list \<Rightarrow> jsstring" where
  "join_lines [] = []"
| "join_lines [l] = l"
| "join_lines (l # m # ls) = l @ nl # join_lines (m # ls)"

text \<open>A number inside a template literal: its decimal digits.\<close>

fun decimal :: "nat \<Rightarrow> jsstring" where
  "decimal n =
     (if n < 10 then [0x30 + of_nat n] else decimal (n div 10) @ [0x30 + of_nat (n mod 10)])"

declare decimal.simps [simp del]

text \<open>\<open>lines.forEach((line, i) => console.log(`${i + 1}: ${line}`))\<close>, from index \<open>i\<close> on.
  The console is the list of the strings printed, one per call of \<open>console.log\<close>.\<close>

fun forEach_numbered :: "nat \<Rightarrow> jsstring list \<Rightarrow> jsstring list" where
  "forEach_numbered i [] = []"
| "forEach_numbered i (line # rest) =
     (decimal (i + 1) @ js '': '' @ line) # forEach_numbered (i + 1) rest"

definition more_lines :: "nat \<Rightarrow> jsstring" where
  "more_lines n =
     js ''... y '' @ decimal n @ js '' l'' @ [0xED] @ js ''neas m'' @ [0xE1] @ js ''s''"

definition showDiff :: "jsstring \<Rightarrow> jsstring \<Rightarrow> jsstring list" where
  "showDiff oldContent newContent =
     (let oldLines = split_lines oldContent; newLines = split_lines newContent in
      [[nl, 0xD83D, 0xDCCB] @ js '' COMPARACI'' @ [0xD3] @ js ''N DE CAMBIOS:'',
       replicate 50 0x3D,
       [0xD83D, 0xDD34] @ js '' CONTENIDO ANTERIOR:'',
       replicate 30 0x2D]
      @ forEach_numbered 0 (take 10 oldLines)
      @ (if length oldLines > 10 then [more_lines (length oldLines - 10)] else [])
      @ [[nl, 0xD83D, 0xDFE2] @ js '' CONTENIDO NUEVO:'',
         replicate 30 0x2D]
      @ forEach_numbered 0 (take 10 newLines)
      @ (if length newLines > 10 then [more_lines (length newLines - 10)] else [])
      @ [replicate 50 0x3D])"

text \<open>
  The preview of \<open>main\<close>: \<open>old\<close> is the text of the target file when reading it succeeded
  (\<open>fileExists\<close>), and \<open>None\<close> when it threw.
\<close>

definition preview :: "jsstring option \<Rightarrow> jsstring \<Rightarrow> jsstring list" where
  "preview old code =
     (case old of
        Some oldContent \<Rightarrow> showDiff oldContent code
      | None \<Rightarrow>
          [[nl, 0xD83D, 0xDCCB] @ js '' CONTENIDO DEL NUEVO ARCHIVO:'',
           replicate 40 0x2D,
           join_lines (take 15 (split_lines code))]
          @ (if length (split_lines code) > 15
             then [more_lines (length (split_lines code) - 15)] else [])
          @ [replicate 40 0x2D])"

text \<open>
  In the words of the specification: the first \<open>k\<close> lines, numbered from 1, then the
  count of the lines left out when there are more than \<open>k\<close>.
\<close>

definition listing :: "nat \<Rightarrow> jsstring list \<Rightarrow> jsstring list" where
  "listing k ls =
     map (\<lambda>i. decimal (Suc i) @ js '': '' @ ls ! i) [0..<min k (length ls)]
     @ (if k < length ls then [more_lines (length ls - k)] else [])"

section \<open>Apply stage and REPL\<close>

text \<open>
  \<open>String.prototype.toLowerCase\<close> on strings of Basic Latin and Latin-1 code units; the
  worked examples use it for the parameter \<open>lower\<close>.
\<close>

definition toLowerCase_latin1 :: "jsstring \<Rightarrow> jsstring" where
  "toLowerCase_latin1 s =
     map (\<lambda>c. if (0x41 \<le> c \<and> c \<le> 0x5A) \<or> (0xC0 \<le> c \<and> c \<le> 0xDE \<and> c \<noteq> 0xD7)
               then c + 0x20 else c) s"

text \<open>
  \<open>path.dirname\<close> of Node.js (POSIX): the scan runs from the last code unit down to
  index 1, skips trailing separators and the last component, and stops at the separator
  before it.
\<close>

definition dirname :: "jsstring \<Rightarrow> jsstring" where
  "dirname path =
     (case path of
        [] \<Rightarrow> js ''.''
      | c # cs \<Rightarrow>
          (let hasRoot = (c = slash);
               scanned = dropWhile (\<lambda>x. x \<noteq> slash) (dropWhile (\<lambda>x. x = slash) (rev cs));
               stop = length scanned
           in if scanned = [] then (if hasRoot then js ''/'' else js ''.'')
              else if hasRoot \<and> stop = 1 then js ''//''
              else take stop path))"

text \<open>
  The state the handlers of \<open>main\<close> act on. \<open>files\<close> is the text of the regular files by
  path, \<open>dirs\<close> the directories made by \<open>mkdir\<close>, \<open>refused\<close> the paths on which
  \<open>mkdir\<close> and \<open>writeFile\<close> throw. Paths are the strings as written: two strings that
  name one file (\<open>a.txt\<close> and \<open>./a.txt\<close>) are two keys, so the model says what is
  found under the path that was written and nothing about other paths.
  \<open>pbcopy\<close> and \<open>xclip\<close> say which clipboard utilities can be spawned. \<open>confirming\<close>
  holds the parsed edit while the confirmation question is open. \<open>browser\<close> says that
  the variable of \<open>main\<close> holds the handle, \<open>browser_closes\<close> counts the calls of
  \<open>browser.close()\<close>, and \<open>closing\<close> those of them that have not resolved yet: the
  handler that made the call runs \<open>process.exit(0)\<close> only when it resolves.
  \<open>stdin_paused\<close> says that \<open>process.stdin\<close> is paused, so that neither readline
  interface receives a line. \<open>exit_code\<close> is set by \<open>process.exit\<close>. Console output is
  not part of the state.
\<close>

record state =
  files :: "jsstring \<rightharpoonup> jsstring"
  dirs :: "jsstring set"
  refused :: "jsstring set"
  clipboard :: "jsstring option"
  pbcopy :: bool
  xclip :: bool
  confirming :: "ParsedEdit option"
  browser :: bool
  browser_closes :: nat
  closing :: nat
  stdin_paused :: bool
  exit_code :: "nat option"

text \<open>\<open>fs.mkdir(dir, {recursive: true})\<close> and \<open>fs.writeFile\<close>; \<open>None\<close> is a throw.\<close>

definition mkdir :: "jsstring \<Rightarrow> state \<Rightarrow> state option" where
  "mkdir dir st = (if dir \<in> refused st then None else Some (st\<lparr>dirs := insert dir (dirs st)\<rparr>))"

definition writeFile :: "jsstring \<Rightarrow> jsstring \<Rightarrow> state \<Rightarrow> state option" where
  "writeFile path data st =
     (if path \<in> refused st then None else Some (st\<lparr>files := (files st)(path \<mapsto> data)\<rparr>))"

text \<open>The \<open>try\<close> block of the branch that applies the edit; a throw is caught and logged.\<close>

definition apply_edit :: "ParsedEdit \<Rightarrow> state \<Rightarrow> state" where
  "apply_edit e st =
     (let dir = dirname (filePath e) in
      case mkdir dir st of
        None \<Rightarrow> st
      | Some st1 \<Rightarrow>
          (case writeFile (filePath e) (codeBlock e) st1 of
             None \<Rightarrow> st1
           | Some st2 \<Rightarrow> st2))"

text \<open>\<open>copyToClipboard\<close>: \<open>pbcopy\<close> first, \<open>xclip\<close> when it cannot be spawned, else a
  warning only.\<close>

definition copyToClipboard :: "jsstring \<Rightarrow> state \<Rightarrow> state" where
  "copyToClipboard data st =
     (if pbcopy st then st\<lparr>clipboard := Some data\<rparr>
      else if xclip st then st\<lparr>clipboard := Some data\<rparr>
      else st)"

text \<open>The callback of the confirmation question.\<close>

definition on_answer :: "(jsstring \<Rightarrow> jsstring) \<Rightarrow> ParsedEdit \<Rightarrow> jsstring \<Rightarrow> state \<Rightarrow> state" where
  "on_answer lower e answer st =
     (let response = trim (lower answer);
          st1 = (if response = js ''s'' \<or> response = js ''si'' \<or> response = js ''s'' @ [0xED]
                 then apply_edit e st
                 else if response = js ''c'' \<or> response = js ''copiar''
                 then copyToClipboard (codeBlock e) st
                 else st)
      in st1\<lparr>confirming := None\<rparr>)"

text \<open>
  The handlers of the events \<open>close\<close> of the readline interface and \<open>SIGINT\<close>, up to
  their \<open>await\<close>: with a handle they call \<open>browser.close()\<close> and wait; without one they
  exit at once. \<open>on_closed\<close> is the rest of either handler, run when a call of
  \<open>browser.close()\<close> resolves: \<open>process.exit(0)\<close>.
\<close>

definition on_close :: "state \<Rightarrow> state" where
  "on_close st =
     (if browser st
      then st\<lparr>browser_closes := Suc (browser_closes st), closing := Suc (closing st)\<rparr>
      else st\<lparr>exit_code := Some 0\<rparr>)"

definition on_sigint :: "state \<Rightarrow> state" where
  "on_sigint st =
     (if browser st
      then st\<lparr>browser_closes := Suc (browser_closes st), closing := Suc (closing st)\<rparr>
      else st\<lparr>exit_code := Some 0\<rparr>)"

definition on_closed :: "state \<Rightarrow> state" where
  "on_closed st =
     (if 0 < closing st then st\<lparr>closing := closing st - 1, exit_code := Some 0\<rparr> else st)"

text \<open>
  The handler of the event \<open>line\<close>. What \<open>askAI\<close> returns for this request is the input
  \<open>ai\<close>; collecting the context and asking only read. \<open>rl.close()\<close> emits \<open>close\<close>.
\<close>

datatype ai_result = Reply jsstring | RemoteError

definition on_line :: "(jsstring \<Rightarrow> jsstring) \<Rightarrow> jsstring \<Rightarrow> ai_result \<Rightarrow> state \<Rightarrow> state" where
  "on_line lower input ai st =
     (let userInput = trim input in
      if lower userInput = js ''salir'' \<or> lower userInput = js ''exit'' then on_close st
      else if userInput = [] then st
      else case ai of
             RemoteError \<Rightarrow> st
           | Reply aiResponse \<Rightarrow>
               (case parseAIResponse aiResponse of
                  None \<Rightarrow> st
                | Some e \<Rightarrow> st\<lparr>confirming := Some e\<rparr>))"

definition is_exit_token :: "(jsstring \<Rightarrow> jsstring) \<Rightarrow> jsstring \<Rightarrow> bool" where
  "is_exit_token lower input =
     (lower (trim input) = js ''salir'' \<or> lower (trim input) = js ''exit'')"

text \<open>
  One event of the process: the event \<open>line\<close> of the prompt, the callback of the open
  confirmation question, \<open>SIGINT\<close>, or a pending \<open>browser.close()\<close> that resolves. A run
  is any sequence of events, so a \<open>SIGINT\<close> may come while a handler waits for the
  browser to close. The handler of a line is one step: the reply to its request is there
  before the next event. Both readline interfaces read \<open>process.stdin\<close>, so the line typed
  as the answer is a \<open>Line\<close> event too, before the \<open>Answer\<close> event. A line reaches an
  interface only while \<open>process.stdin\<close> is not paused. Closing a readline interface pauses
  \<open>process.stdin\<close>: \<open>rl.close()\<close> after an exit token, and \<open>confirmRl.close()\<close> at the end
  of the callback of the confirmation question; the \<open>rl.prompt()\<close> that follows it does
  not resume the stream, because the interface \<open>rl\<close> itself was never paused. After
  \<open>process.exit\<close> nothing runs.
\<close>

datatype event = Line jsstring ai_result | Answer jsstring | Interrupt | Closed

definition step :: "(jsstring \<Rightarrow> jsstring) \<Rightarrow> state \<Rightarrow> event \<Rightarrow> state" where
  "step lower st ev =
     (if exit_code st \<noteq> None then st
      else case ev of
             Interrupt \<Rightarrow> on_sigint st
           | Closed \<Rightarrow> on_closed st
           | Line input ai \<Rightarrow>
               if stdin_paused st then st
               else if is_exit_token lower input
               then (on_line lower input ai st)\<lparr>stdin_paused := True\<rparr>
               else on_line lower input ai st
           | Answer answer \<Rightarrow>
               if stdin_paused st then st
               else (case confirming st of
                       None \<Rightarrow> st
                     | Some e \<Rightarrow> (on_answer lower e answer st)\<lparr>stdin_paused := True\<rparr>))"

datatype init_result = InitOk | InitFails

definition start :: "(jsstring \<rightharpoonup> jsstring) \<Rightarrow> jsstring set \<Rightarrow> bool \<Rightarrow> bool \<Rightarrow> state" where
  "start fs ro pb xc =
     \<lparr>files = fs, dirs = {}, refused = ro, clipboard = None, pbcopy = pb, xclip = xc,
      confirming = None, browser = False, browser_closes = 0, closing = 0,
      stdin_paused = False, exit_code = None\<rparr>"

text \<open>
  \<open>main\<close>: when \<open>initAIWorker\<close> throws, the variable \<open>browser\<close> has not been assigned,
  and the \<open>catch\<close> block exits with code 1 without a call of \<open>browser.close()\<close>;
  otherwise the handle is stored and the events are handled in turn.
\<close>

definition main :: "(jsstring \<Rightarrow> jsstring) \<Rightarrow> init_result \<Rightarrow> event list \<Rightarrow> state \<Rightarrow> state" where
  "main lower init events st =
     (case init of
        InitFails \<Rightarrow> st\<lparr>exit_code := Some 1\<rparr>
      | InitOk \<Rightarrow> foldl (step lower) (st\<lparr>browser := True\<rparr>) events)"

section \<open>Properties of the response parser\<close>

subsection \<open>Backtracking\<close>

lemma greedy_first: "k (drop n s) = Some r \<Longrightarrow> greedy n k s = Some r"
  by (cases n) simp_all

lemma greedy_last: "(\<And>m. m < n \<Longrightarrow> k (drop m s) = None) \<Longrightarrow> greedy n k s = k (drop n s)"
proof (induction n)
  case 0
  then show ?case by simp
next
  case (Suc n)
  show ?case
  proof (cases "k (drop (Suc n) s)")
    case None
    have "greedy n k s = k (drop n s)" using Suc by simp
    moreover have "k (drop n s) = None" using Suc.prems by simp
    ultimately show ?thesis using None by simp
  next
    case (Some r)
    then show ?thesis by simp
  qed
qed

lemma drop_length_takeWhile: "drop (length (takeWhile p s)) s = dropWhile p s"
  by (induction s) simp_all

lemma is_word_not_nl: "is_word c \<Longrightarrow> c \<noteq> nl"
  by (auto simp: is_word_def nl_def)

lemma is_word_not_backtick: "is_word c \<Longrightarrow> c \<noteq> backtick"
  by (auto simp: is_word_def backtick_def)

lemma is_space_nl: "is_space nl"
  by (simp add: is_space_def nl_def)

lemma nl_not_backtick: "nl \<noteq> backtick"
  by (simp add: nl_def backtick_def)

lemma drop_in_takeWhile:
  "m < length (takeWhile p s) \<Longrightarrow> \<exists>c t. drop m s = c # t \<and> p c"
proof (induction s arbitrary: m)
  case Nil
  then show ?case by simp
next
  case (Cons a s)
  then show ?case by (cases m) (auto split: if_splits)
qed

lemma newline_then_block_case:
  "newline_then_block u =
     (case u of [] \<Rightarrow> None | c # body \<Rightarrow> if c = nl then lazy_until_fence [] body else None)"
  by (cases u) simp_all

lemma star_word:
  "star is_word newline_then_block t = newline_then_block (dropWhile is_word t)"
proof -
  have "\<And>m. m < length (takeWhile is_word t) \<Longrightarrow> newline_then_block (drop m t) = None"
  proof -
    fix m assume "m < length (takeWhile is_word t)"
    then obtain c u where "drop m t = c # u" "is_word c" using drop_in_takeWhile by blast
    then show "newline_then_block (drop m t) = None" using is_word_not_nl by simp
  qed
  then show ?thesis
    unfolding star_def by (simp add: greedy_last drop_length_takeWhile)
qed

lemma lazy_until_fence_eq:
  "lazy_until_fence acc s = map_option ((@) acc) (before_closing s)"
proof (induction s arbitrary: acc)
  case Nil
  then show ?case by simp
next
  case (Cons c cs)
  then show ?case by (simp add: option.map_comp comp_def)
qed

lemma lazy_until_fence_Nil: "lazy_until_fence [] s = before_closing s"
  by (cases "before_closing s") (simp_all add: lazy_until_fence_eq)

lemma codeMatch_at_eq:
  "codeMatch_at s = (case opening_fence s of None \<Rightarrow> None | Some body \<Rightarrow> before_closing body)"
proof (cases "starts_with [backtick, backtick, backtick] s")
  case False
  then show ?thesis by (simp add: codeMatch_at_def opening_fence_def)
next
  case True
  show ?thesis
  proof (cases "dropWhile is_word (drop 3 s)")
    case Nil
    with True show ?thesis
      by (simp only: codeMatch_at_def opening_fence_def star_word newline_then_block_case
          if_True list.case option.case)
  next
    case (Cons c body)
    with True show ?thesis
      by (simp only: codeMatch_at_def opening_fence_def star_word newline_then_block_case
          if_True list.case option.case lazy_until_fence_Nil) (cases "c = nl", simp_all)
  qed
qed

lemma opening_fence_not_backtick: "x \<noteq> backtick \<Longrightarrow> opening_fence (x # t) = None"
  by (simp add: opening_fence_def starts_with_def)

lemma before_closing_drop: "before_closing s = None \<Longrightarrow> before_closing (drop n s) = None"
proof (induction s arbitrary: n)
  case Nil
  then show ?case by simp
next
  case (Cons c cs)
  then show ?case by (cases n) (auto split: if_splits)
qed

lemma dropWhile_is_drop: "\<exists>n. dropWhile p s = drop n s"
  using drop_length_takeWhile by metis

lemma opening_fence_suffix: "opening_fence s = Some body \<Longrightarrow> \<exists>n. body = drop n s"
proof -
  assume a: "opening_fence s = Some body"
  then obtain c where c: "dropWhile is_word (drop 3 s) = c # body"
    by (auto simp: opening_fence_def split: if_splits list.splits)
  obtain n where "dropWhile is_word (drop 3 s) = drop n (drop 3 s)"
    using dropWhile_is_drop by blast
  with c have "drop (Suc 0) (drop n (drop 3 s)) = body" by simp
  then show ?thesis by (metis drop_drop)
qed

lemma no_closing_no_match: "before_closing s = None \<Longrightarrow> leftmost codeMatch_at s = None"
proof (induction s)
  case Nil
  then show ?case by (simp add: codeMatch_at_def starts_with_def)
next
  case (Cons c cs)
  have tl: "before_closing cs = None" using Cons.prems by (auto split: if_splits)
  have "codeMatch_at (c # cs) = None"
  proof (cases "opening_fence (c # cs)")
    case None
    then show ?thesis by (simp add: codeMatch_at_eq)
  next
    case (Some body)
    then obtain n where "body = drop n (c # cs)" using opening_fence_suffix by blast
    then have "before_closing body = None"
      using before_closing_drop [OF Cons.prems, of n] by simp
    with Some show ?thesis by (simp add: codeMatch_at_eq)
  qed
  then show ?case using Cons.IH tl by simp
qed

lemma leftmost_skip:
  "\<forall>x\<in>set pre. x \<noteq> backtick \<Longrightarrow> leftmost codeMatch_at (pre @ t) = leftmost codeMatch_at t"
  by (induction pre) (simp_all add: codeMatch_at_eq opening_fence_not_backtick)

lemma opening_fence_shape:
  "opening_fence s = Some body \<Longrightarrow>
     \<exists>tag. s = backtick # backtick # backtick # tag @ nl # body \<and> (\<forall>x\<in>set tag. is_word x)"
proof -
  assume a: "opening_fence s = Some body"
  then have sw: "starts_with [backtick, backtick, backtick] s"
    and dw: "dropWhile is_word (drop 3 s) = nl # body"
    by (auto simp: opening_fence_def split: if_splits list.splits)
  have "s = take 3 s @ drop 3 s" by simp
  moreover have "take 3 s = [backtick, backtick, backtick]" using sw by (simp add: starts_with_def numeral_3_eq_3)
  moreover have "drop 3 s = takeWhile is_word (drop 3 s) @ nl # body"
    using dw takeWhile_dropWhile_id by metis
  ultimately have "s = backtick # backtick # backtick # takeWhile is_word (drop 3 s) @ nl # body"
    by (metis append_Cons append_Nil)
  moreover have "\<forall>x\<in>set (takeWhile is_word (drop 3 s)). is_word x"
    by (meson set_takeWhileD)
  ultimately show ?thesis by blast
qed

lemma unclosed_opening_no_match:
  assumes "opening_fence (c # cs) = Some body" and "before_closing body = None"
  shows "leftmost codeMatch_at cs = None"
proof -
  obtain tag where s: "c # cs = backtick # backtick # backtick # tag @ nl # body"
    and tag: "\<forall>x\<in>set tag. is_word x"
    using assms(1) opening_fence_shape by blast
  define u where "u = tag @ [nl]"
  have cs: "cs = backtick # backtick # u @ body" using s by (simp add: u_def)
  have u_ne: "u \<noteq> []" by (simp add: u_def)
  have u_nb: "\<forall>x\<in>set u. x \<noteq> backtick"
    using tag is_word_not_backtick nl_not_backtick by (auto simp: u_def)
  obtain h r where hr: "u = h # r" using u_ne by (cases u) auto
  have h: "h \<noteq> backtick" using u_nb hr by simp
  have 1: "codeMatch_at (backtick # backtick # u @ body) = None"
    using h hr by (simp add: codeMatch_at_def starts_with_def)
  have 2: "codeMatch_at (backtick # u @ body) = None"
    using h hr by (simp add: codeMatch_at_def starts_with_def)
  have "leftmost codeMatch_at (u @ body) = leftmost codeMatch_at body"
    using u_nb leftmost_skip by blast
  also have "\<dots> = None" using assms(2) no_closing_no_match by blast
  finally show ?thesis using 1 2 cs by simp
qed

lemma codeMatch_first_fenced_block: "codeMatch s = first_fenced_block s"
  unfolding codeMatch_def first_fenced_block_def
proof (induction s)
  case Nil
  then show ?case by (simp add: codeMatch_at_def starts_with_def)
next
  case (Cons c cs)
  have at: "codeMatch_at (c # cs) =
      (case opening_fence (c # cs) of None \<Rightarrow> None | Some body \<Rightarrow> before_closing body)"
    by (rule codeMatch_at_eq)
  show ?case
  proof (cases "opening_fence (c # cs)")
    case None
    then show ?thesis using Cons.IH at by simp
  next
    case (Some body)
    show ?thesis
    proof (cases "before_closing body")
      case None
      then have "leftmost codeMatch_at cs = None"
        using Some unclosed_opening_no_match by blast
      then show ?thesis using Some None at by simp
    next
      case (Some b)
      then show ?thesis using \<open>opening_fence (c # cs) = Some body\<close> at by simp
    qed
  qed
qed

lemma fileMatch_at_Nil: "fileMatch_at [] = None"
  by (simp add: fileMatch_at_def starts_with_ci_def js_def)

lemma no_label_no_fileMatch: "label_line s = None \<Longrightarrow> fileMatch s = None"
  unfolding fileMatch_def
proof (induction s)
  case Nil
  then show ?case by (simp add: fileMatch_at_Nil)
next
  case (Cons c cs)
  then show ?case by (simp add: fileMatch_at_def split: if_splits)
qed

lemma takeWhile_dropWhile_space:
  "\<exists>c\<in>set (takeWhile (\<lambda>x. x \<noteq> nl) t). \<not> is_space c \<Longrightarrow>
     takeWhile (\<lambda>x. x \<noteq> nl) (dropWhile is_space t) = dropWhile is_space (takeWhile (\<lambda>x. x \<noteq> nl) t)"
proof (induction t)
  case Nil
  then show ?case by simp
next
  case (Cons c cs)
  then show ?case using is_space_nl by (cases "c = nl") auto
qed

lemma dropWhile_nonempty: "\<exists>c\<in>set s. \<not> p c \<Longrightarrow> dropWhile p s \<noteq> []"
  by (induction s) auto

lemma trim_dropWhile: "trim (dropWhile is_space s) = trim s"
  by (simp add: trim_def)

lemma star_space_line:
  assumes "\<exists>c\<in>set (takeWhile (\<lambda>x. x \<noteq> nl) t). \<not> is_space c"
  shows "star is_space not_newline_plus t = Some (dropWhile is_space (takeWhile (\<lambda>x. x \<noteq> nl) t))"
proof -
  let ?g = "dropWhile is_space (takeWhile (\<lambda>x. x \<noteq> nl) t)"
  have ne: "?g \<noteq> []" using assms by (rule dropWhile_nonempty)
  have "not_newline_plus (dropWhile is_space t) = Some ?g"
    using ne takeWhile_dropWhile_space [OF assms] by (simp add: not_newline_plus_def)
  then have "not_newline_plus (drop (length (takeWhile is_space t)) t) = Some ?g"
    by (simp add: drop_length_takeWhile)
  then show ?thesis unfolding star_def by (rule greedy_first)
qed

lemma label_fileMatch:
  "label_line s = Some r \<Longrightarrow> \<exists>c\<in>set r. \<not> is_space c \<Longrightarrow>
     fileMatch s = Some (dropWhile is_space r)"
  unfolding fileMatch_def
proof (induction s)
  case Nil
  then show ?case by simp
next
  case (Cons c cs)
  show ?case
  proof (cases "starts_with_ci (js ''ARCHIVO:'') (c # cs)")
    case True
    then have r: "r = takeWhile (\<lambda>x. x \<noteq> nl) (drop 8 (c # cs))" using Cons.prems(1) by simp
    have "fileMatch_at (c # cs) = Some (dropWhile is_space r)"
      using True star_space_line Cons.prems(2) unfolding r fileMatch_at_def by simp
    then show ?thesis by simp
  next
    case False
    then have "fileMatch_at (c # cs) = None" by (simp add: fileMatch_at_def)
    moreover have "label_line cs = Some r" using False Cons.prems(1) by simp
    ultimately show ?thesis using Cons.IH Cons.prems(2) by simp
  qed
qed


subsection \<open>The contract's definitions, by decomposition of the reply\<close>

text \<open>
  The label is at the start of a string exactly when its first eight code units are the
  letters of \<open>ARCHIVO\<close>, each in either case, and a colon; a reply has no label line
  exactly when the label is at no position.
\<close>

lemma sub_eq: "(c - 0x20 = (u::16 word)) = (c = u + 0x20)"
  by auto

lemma canonicalize_letters:
  "canonicalize c = 0x41 \<longleftrightarrow> c = 0x41 \<or> c = 0x61"
  "canonicalize c = 0x52 \<longleftrightarrow> c = 0x52 \<or> c = 0x72"
  "canonicalize c = 0x43 \<longleftrightarrow> c = 0x43 \<or> c = 0x63"
  "canonicalize c = 0x48 \<longleftrightarrow> c = 0x48 \<or> c = 0x68"
  "canonicalize c = 0x49 \<longleftrightarrow> c = 0x49 \<or> c = 0x69"
  "canonicalize c = 0x56 \<longleftrightarrow> c = 0x56 \<or> c = 0x76"
  "canonicalize c = 0x4F \<longleftrightarrow> c = 0x4F \<or> c = 0x6F"
  "canonicalize c = 0x3A \<longleftrightarrow> c = 0x3A"
  by (auto simp: canonicalize_def sub_eq)

lemma list8:
  "length xs = Suc (Suc (Suc (Suc (Suc (Suc (Suc (Suc 0))))))) \<Longrightarrow>
     \<exists>a b c d e f g h. xs = [a, b, c, d, e, f, g, h]"
  by (auto simp: length_Suc_conv)

lemma label_length: "length (js ''ARCHIVO:'') = 8"
  by (simp add: js_def)

lemma label_canonical:
  "map canonicalize (js ''ARCHIVO:'') = [0x41, 0x52, 0x43, 0x48, 0x49, 0x56, 0x4F, 0x3A]"
  by (simp add: js_def canonicalize_def)

lemma starts_with_ci_label:
  "starts_with_ci (js ''ARCHIVO:'') s \<longleftrightarrow>
     (\<exists>a r c h i v w rest. s = [a, r, c, h, i, v, w, 0x3A] @ rest
        \<and> (a = 0x41 \<or> a = 0x61) \<and> (r = 0x52 \<or> r = 0x72) \<and> (c = 0x43 \<or> c = 0x63)
        \<and> (h = 0x48 \<or> h = 0x68) \<and> (i = 0x49 \<or> i = 0x69) \<and> (v = 0x56 \<or> v = 0x76)
        \<and> (w = 0x4F \<or> w = 0x6F))"
  (is "?L \<longleftrightarrow> ?R")
proof
  assume ?L
  then have len: "8 \<le> length s"
    and eq: "map canonicalize (take 8 s) = [0x41, 0x52, 0x43, 0x48, 0x49, 0x56, 0x4F, 0x3A]"
    unfolding starts_with_ci_def label_length label_canonical by blast+
  have "length (take 8 s) = Suc (Suc (Suc (Suc (Suc (Suc (Suc (Suc 0)))))))" using len by simp
  then obtain a r c h i v w k where t: "take 8 s = [a, r, c, h, i, v, w, k]"
    using list8 by blast
  have s: "s = [a, r, c, h, i, v, w, k] @ drop 8 s" using t by (metis append_take_drop_id)
  have "canonicalize a = 0x41 \<and> canonicalize r = 0x52 \<and> canonicalize c = 0x43
      \<and> canonicalize h = 0x48 \<and> canonicalize i = 0x49 \<and> canonicalize v = 0x56
      \<and> canonicalize w = 0x4F \<and> canonicalize k = 0x3A"
    using eq unfolding t by simp
  then have "(a = 0x41 \<or> a = 0x61) \<and> (r = 0x52 \<or> r = 0x72) \<and> (c = 0x43 \<or> c = 0x63)
        \<and> (h = 0x48 \<or> h = 0x68) \<and> (i = 0x49 \<or> i = 0x69) \<and> (v = 0x56 \<or> v = 0x76)
        \<and> (w = 0x4F \<or> w = 0x6F) \<and> k = 0x3A"
    unfolding canonicalize_letters .
  then show ?R using s by blast
next
  assume ?R
  then obtain a r c h i v w rest where s: "s = [a, r, c, h, i, v, w, 0x3A] @ rest"
    and c: "(a = 0x41 \<or> a = 0x61) \<and> (r = 0x52 \<or> r = 0x72) \<and> (c = 0x43 \<or> c = 0x63)
        \<and> (h = 0x48 \<or> h = 0x68) \<and> (i = 0x49 \<or> i = 0x69) \<and> (v = 0x56 \<or> v = 0x76)
        \<and> (w = 0x4F \<or> w = 0x6F) \<and> (0x3A :: code_unit) = 0x3A"
    by blast
  have "canonicalize a = 0x41 \<and> canonicalize r = 0x52 \<and> canonicalize c = 0x43
      \<and> canonicalize h = 0x48 \<and> canonicalize i = 0x49 \<and> canonicalize v = 0x56
      \<and> canonicalize w = 0x4F \<and> canonicalize 0x3A = 0x3A"
    using c unfolding canonicalize_letters .
  then show ?L unfolding s starts_with_ci_def label_length label_canonical by simp
qed

lemma label_line_None_iff:
  "label_line s = None \<longleftrightarrow> (\<forall>n. \<not> starts_with_ci (js ''ARCHIVO:'') (drop n s))"
proof (induction s)
  case Nil
  then show ?case by (simp add: starts_with_ci_def label_length)
next
  case (Cons c cs)
  show ?case
  proof (cases "starts_with_ci (js ''ARCHIVO:'') (c # cs)")
    case True
    then have "starts_with_ci (js ''ARCHIVO:'') (drop 0 (c # cs))" by simp
    then show ?thesis using True by (metis label_line.simps(2) option.distinct(1))
  next
    case False
    have "(\<forall>n. \<not> starts_with_ci (js ''ARCHIVO:'') (drop n (c # cs))) \<longleftrightarrow>
          (\<forall>n. \<not> starts_with_ci (js ''ARCHIVO:'') (drop n cs))"
    proof
      assume a: "\<forall>n. \<not> starts_with_ci (js ''ARCHIVO:'') (drop n (c # cs))"
      show "\<forall>n. \<not> starts_with_ci (js ''ARCHIVO:'') (drop n cs)"
      proof
        fix n show "\<not> starts_with_ci (js ''ARCHIVO:'') (drop n cs)"
          using a [rule_format, of "Suc n"] by simp
      qed
    next
      assume a: "\<forall>n. \<not> starts_with_ci (js ''ARCHIVO:'') (drop n cs)"
      show "\<forall>n. \<not> starts_with_ci (js ''ARCHIVO:'') (drop n (c # cs))"
      proof
        fix n show "\<not> starts_with_ci (js ''ARCHIVO:'') (drop n (c # cs))"
          using a False by (cases n) simp_all
      qed
    qed
    then show ?thesis using False Cons.IH by simp
  qed
qed

text \<open>
  A reply has a first fenced block exactly when it can be cut into some text, three
  backticks, a tag of word characters, a line feed, an interior, a line feed with three
  backticks, and the rest.
\<close>

lemma opening_fence_intro:
  "\<forall>x\<in>set tag. is_word x \<Longrightarrow>
     opening_fence ([backtick, backtick, backtick] @ tag @ nl # body) = Some body"
proof -
  assume a: "\<forall>x\<in>set tag. is_word x"
  have "\<not> is_word nl" using is_word_not_nl by blast
  then have "dropWhile is_word (tag @ nl # body) = nl # body"
    using a by (simp add: dropWhile_append3)
  then show ?thesis by (simp add: opening_fence_def starts_with_def)
qed

lemma before_closing_intro: "before_closing (body @ closing_fence @ post) \<noteq> None"
  by (induction body) (simp_all add: closing_fence_def starts_with_def)

lemma before_closing_elim:
  "before_closing s = Some b \<Longrightarrow> \<exists>post. s = b @ closing_fence @ post"
proof (induction s arbitrary: b)
  case Nil
  then show ?case by simp
next
  case (Cons c cs)
  show ?case
  proof (cases "starts_with closing_fence (c # cs)")
    case True
    then have "b = []" using Cons.prems by simp
    moreover have "length closing_fence = 4" by (simp add: closing_fence_def)
    then have "take 4 (c # cs) = closing_fence" using True by (simp add: starts_with_def)
    then have "c # cs = closing_fence @ drop 4 (c # cs)" by (metis append_take_drop_id)
    ultimately show ?thesis by auto
  next
    case False
    then obtain b' where "before_closing cs = Some b'" "b = c # b'"
      using Cons.prems by auto
    then show ?thesis using Cons.IH by fastforce
  qed
qed

lemma after_first_opening_elim:
  "after_first_opening s = Some body \<Longrightarrow>
     \<exists>pre tag. s = pre @ [backtick, backtick, backtick] @ tag @ nl # body \<and> (\<forall>x\<in>set tag. is_word x)"
proof (induction s)
  case Nil
  then show ?case by simp
next
  case (Cons c cs)
  show ?case
  proof (cases "opening_fence (c # cs)")
    case None
    then have "after_first_opening cs = Some body" using Cons.prems by simp
    then obtain pre tag where "cs = pre @ [backtick, backtick, backtick] @ tag @ nl # body"
      "\<forall>x\<in>set tag. is_word x" using Cons.IH by blast
    then have "c # cs = (c # pre) @ [backtick, backtick, backtick] @ tag @ nl # body" by simp
    then show ?thesis using \<open>\<forall>x\<in>set tag. is_word x\<close> by blast
  next
    case (Some b)
    then have "b = body" using Cons.prems by simp
    then obtain tag where "c # cs = backtick # backtick # backtick # tag @ nl # body"
      "\<forall>x\<in>set tag. is_word x" using Some opening_fence_shape by blast
    then have "c # cs = [] @ [backtick, backtick, backtick] @ tag @ nl # body" by simp
    then show ?thesis using \<open>\<forall>x\<in>set tag. is_word x\<close> by blast
  qed
qed

lemma first_fenced_block_elim:
  assumes "first_fenced_block s = Some b"
  shows "\<exists>pre tag post. s = pre @ [backtick, backtick, backtick] @ tag @ nl # b @ closing_fence @ post
           \<and> (\<forall>x\<in>set tag. is_word x)"
proof -
  obtain body where o: "after_first_opening s = Some body" and c: "before_closing body = Some b"
    using assms by (auto simp: first_fenced_block_def split: option.splits)
  obtain post where "body = b @ closing_fence @ post" using c before_closing_elim by blast
  then show ?thesis using after_first_opening_elim [OF o] by blast
qed

lemma first_fenced_block_intro:
  assumes "\<forall>x\<in>set tag. is_word x"
  shows "first_fenced_block (pre @ [backtick, backtick, backtick] @ tag @ nl # body @ closing_fence @ post) \<noteq> None"
proof (induction pre)
  case Nil
  then show ?case
    using opening_fence_intro [OF assms, of "body @ closing_fence @ post"] before_closing_intro
    by (simp add: first_fenced_block_def)
next
  case (Cons c pre)
  let ?s = "pre @ [backtick, backtick, backtick] @ tag @ nl # body @ closing_fence @ post"
  show ?case
  proof (cases "opening_fence (c # ?s)")
    case None
    then show ?thesis using Cons by (simp add: first_fenced_block_def)
  next
    case (Some b0)
    have "before_closing b0 \<noteq> None"
    proof
      assume "before_closing b0 = None"
      then have "leftmost codeMatch_at ?s = None" using Some unclosed_opening_no_match by blast
      then have "first_fenced_block ?s = None"
        using codeMatch_first_fenced_block [of ?s] by (simp add: codeMatch_def)
      then show False using Cons by simp
    qed
    then show ?thesis using Some by (simp add: first_fenced_block_def)
  qed
qed

subsection \<open>The label line and the tagged block\<close>

lemma label_line_after: "label_line s = map_option (takeWhile (\<lambda>x. x \<noteq> nl)) (after_label s)"
  by (induction s) simp_all

lemma tagged_opening_word:
  assumes "tagged_opening s = Some (tag, body)" and "\<forall>x\<in>set tag. is_word x"
  shows "opening_fence s = Some body"
proof -
  let ?P = "\<lambda>c. c \<noteq> nl \<and> c \<noteq> backtick"
  have sw: "starts_with [backtick, backtick, backtick] s"
    and dw: "dropWhile ?P (drop 3 s) = nl # body"
    and tw: "takeWhile ?P (drop 3 s) = tag"
    using assms(1) by (auto simp: tagged_opening_def split: if_splits list.splits)
  have "drop 3 s = tag @ nl # body" using dw tw takeWhile_dropWhile_id by metis
  moreover have "take 3 s = [backtick, backtick, backtick]"
    using sw by (simp add: starts_with_def numeral_3_eq_3)
  ultimately have "s = [backtick, backtick, backtick] @ tag @ nl # body"
    by (metis append_take_drop_id)
  then show ?thesis using opening_fence_intro [OF assms(2)] by simp
qed

lemma opening_fence_tagged:
  assumes "opening_fence s = Some body"
  shows "tagged_opening s \<noteq> None"
proof -
  let ?P = "\<lambda>c. c \<noteq> nl \<and> c \<noteq> backtick"
  obtain tag where s: "s = backtick # backtick # backtick # tag @ nl # body"
    and tag: "\<forall>x\<in>set tag. is_word x"
    using assms opening_fence_shape by blast
  have "\<forall>x\<in>set tag. ?P x" using tag is_word_not_nl is_word_not_backtick by blast
  then have "dropWhile ?P (tag @ nl # body) = nl # body"
    by (simp add: dropWhile_append3)
  then show ?thesis unfolding s by (simp add: tagged_opening_def starts_with_def)
qed

lemma first_tagged_opening_word:
  "first_tagged_opening s = Some (tag, body) \<Longrightarrow> \<forall>x\<in>set tag. is_word x \<Longrightarrow>
     after_first_opening s = Some body"
proof (induction s)
  case Nil
  then show ?case by simp
next
  case (Cons c cs)
  show ?case
  proof (cases "tagged_opening (c # cs)")
    case None
    then have "opening_fence (c # cs) = None" using opening_fence_tagged by (cases "opening_fence (c # cs)") auto
    moreover have "first_tagged_opening cs = Some (tag, body)" using None Cons.prems(1) by simp
    ultimately show ?thesis using Cons.IH Cons.prems(2) by simp
  next
    case (Some tb)
    then have "tagged_opening (c # cs) = Some (tag, body)" using Cons.prems(1) by simp
    then have "opening_fence (c # cs) = Some body" using Cons.prems(2) tagged_opening_word by blast
    then show ?thesis by simp
  qed
qed

lemma tagged_block_word:
  assumes "first_tagged_block s = Some (tag, b)" and "\<forall>x\<in>set tag. is_word x"
  shows "first_fenced_block s = Some b"
proof -
  obtain body where o: "first_tagged_opening s = Some (tag, body)" and c: "before_closing body = Some b"
    using assms(1) by (auto simp: first_tagged_block_def split: option.splits)
  have "after_first_opening s = Some body" using o assms(2) by (rule first_tagged_opening_word)
  then show ?thesis using c by (simp add: first_fenced_block_def)
qed

lemma greedy_some:
  "\<exists>m\<le>n. k (drop m s) \<noteq> None \<Longrightarrow> \<exists>m\<le>n. greedy n k s = k (drop m s) \<and> k (drop m s) \<noteq> None"
proof (induction n)
  case 0
  then show ?case by simp
next
  case (Suc n)
  show ?case
  proof (cases "k (drop (Suc n) s)")
    case None
    obtain m where m: "m \<le> Suc n" "k (drop m s) \<noteq> None" using Suc.prems by blast
    then have "m \<noteq> Suc n" using None by auto
    then have "m \<le> n" using m(1) by simp
    then have "\<exists>m\<le>n. k (drop m s) \<noteq> None" using m(2) by blast
    then obtain m' where m': "m' \<le> n" "greedy n k s = k (drop m' s)" "k (drop m' s) \<noteq> None"
      using Suc.IH by blast
    have "greedy (Suc n) k s = greedy n k s" using None by simp
    then have "greedy (Suc n) k s = k (drop m' s) \<and> k (drop m' s) \<noteq> None \<and> m' \<le> Suc n"
      using m' by simp
    then show ?thesis by blast
  next
    case (Some r)
    then have "greedy (Suc n) k s = k (drop (Suc n) s) \<and> k (drop (Suc n) s) \<noteq> None" by simp
    then show ?thesis by blast
  qed
qed

lemma trim_blank: "\<forall>c\<in>set g. is_space c \<Longrightarrow> trim g = []"
proof -
  assume "\<forall>c\<in>set g. is_space c"
  then have "dropWhile is_space g = []" using dropWhile_eq_Nil_conv by blast
  then show ?thesis unfolding trim_def by (simp only: rev.simps dropWhile.simps)
qed

lemma star_space_blank:
  assumes "\<forall>c\<in>set t. is_space c" and "\<exists>c\<in>set t. c \<noteq> nl"
  shows "\<exists>g. star is_space not_newline_plus t = Some g \<and> (\<forall>c\<in>set g. is_space c)"
proof -
  obtain c where "c \<in> set t" "c \<noteq> nl" using assms(2) by blast
  then obtain m where m: "m < length t" "t ! m \<noteq> nl" by (auto simp: in_set_conv_nth)
  then have "drop m t = t ! m # drop (Suc m) t" by (simp add: Cons_nth_drop_Suc)
  then have nn: "not_newline_plus (drop m t) \<noteq> None" using m(2) by (simp add: not_newline_plus_def)
  have "takeWhile is_space t = t" using assms(1) takeWhile_eq_all_conv by blast
  then have len: "length (takeWhile is_space t) = length t" by (rule arg_cong)
  have "m \<le> length (takeWhile is_space t)" using m(1) len by simp
  then have "\<exists>m\<le>length (takeWhile is_space t). not_newline_plus (drop m t) \<noteq> None"
    using nn by blast
  then obtain m' where g: "star is_space not_newline_plus t = not_newline_plus (drop m' t)"
    "not_newline_plus (drop m' t) \<noteq> None"
    unfolding star_def using greedy_some [of "length (takeWhile is_space t)" not_newline_plus t] by blast
  then obtain g where gg: "not_newline_plus (drop m' t) = Some g" by blast
  then have ge: "g = takeWhile (\<lambda>c. c \<noteq> nl) (drop m' t)"
    by (simp add: not_newline_plus_def Let_def split: if_splits)
  have "\<forall>x\<in>set g. is_space x"
  proof
    fix x assume "x \<in> set g"
    then have "x \<in> set (drop m' t)" unfolding ge by (rule set_takeWhileD [THEN conjunct1])
    then have "x \<in> set t" by (rule in_set_dropD)
    then show "is_space x" using assms(1) by blast
  qed
  then show ?thesis using g(1) gg by simp
qed

lemma label_fileMatch_blank:
  "after_label s = Some t \<Longrightarrow> \<forall>c\<in>set t. is_space c \<Longrightarrow> \<exists>c\<in>set t. c \<noteq> nl \<Longrightarrow>
     \<exists>g. fileMatch s = Some g \<and> (\<forall>c\<in>set g. is_space c)"
  unfolding fileMatch_def
proof (induction s)
  case Nil
  then show ?case by simp
next
  case (Cons c cs)
  show ?case
  proof (cases "starts_with_ci (js ''ARCHIVO:'') (c # cs)")
    case True
    then have t: "t = drop 8 (c # cs)" using Cons.prems(1) by simp
    obtain g where "star is_space not_newline_plus t = Some g" "\<forall>c\<in>set g. is_space c"
      using star_space_blank Cons.prems(2,3) by blast
    then have "fileMatch_at (c # cs) = Some g \<and> (\<forall>c\<in>set g. is_space c)"
      using True unfolding t fileMatch_at_def by simp
    then show ?thesis by auto
  next
    case False
    then have "fileMatch_at (c # cs) = None" by (simp add: fileMatch_at_def)
    moreover have "after_label cs = Some t" using False Cons.prems(1) by simp
    ultimately show ?thesis using Cons.IH Cons.prems(2,3) by simp
  qed
qed

lemma first_tagged_block_elim:
  assumes "first_tagged_block s = Some (tag, b)"
  shows "\<exists>pre post. s = pre @ [backtick, backtick, backtick] @ tag @ nl # b @ closing_fence @ post"
proof -
  obtain body where o: "first_tagged_opening s = Some (tag, body)" and c: "before_closing body = Some b"
    using assms by (auto simp: first_tagged_block_def split: option.splits)
  obtain post where p: "body = b @ closing_fence @ post" using c before_closing_elim by blast
  have "\<exists>pre. s = pre @ [backtick, backtick, backtick] @ tag @ nl # body"
    using o
  proof (induction s)
    case Nil
    then show ?case by simp
  next
    case (Cons c cs)
    show ?case
    proof (cases "tagged_opening (c # cs)")
      case None
      then have "first_tagged_opening cs = Some (tag, body)" using Cons.prems by simp
      then obtain pre where "cs = pre @ [backtick, backtick, backtick] @ tag @ nl # body"
        using Cons.IH by blast
      then have "c # cs = (c # pre) @ [backtick, backtick, backtick] @ tag @ nl # body" by simp
      then show ?thesis by blast
    next
      case (Some tb)
      then have t: "tagged_opening (c # cs) = Some (tag, body)" using Cons.prems by simp
      let ?P = "\<lambda>c. c \<noteq> nl \<and> c \<noteq> backtick"
      have sw: "starts_with [backtick, backtick, backtick] (c # cs)"
        and dw: "dropWhile ?P (drop 3 (c # cs)) = nl # body"
        and tw: "takeWhile ?P (drop 3 (c # cs)) = tag"
        using t by (auto simp: tagged_opening_def split: if_splits list.splits)
      have "drop 3 (c # cs) = tag @ nl # body" using dw tw takeWhile_dropWhile_id by metis
      moreover have "take 3 (c # cs) = [backtick, backtick, backtick]"
        using sw by (simp add: starts_with_def numeral_3_eq_3)
      ultimately have "c # cs = [] @ [backtick, backtick, backtick] @ tag @ nl # body"
        by (metis append_Nil append_take_drop_id)
      then show ?thesis by blast
    qed
  qed
  then show ?thesis using p by auto
qed

text \<open>
  C1, as the code has it. Take a reply and the text after its first label \<open>ARCHIVO:\<close>
  (in any letter case). When a character that is not white space follows on the label's
  line, or when only white space follows to the end of the reply and some of it is not a
  line feed, and when the tag of the first fenced block is made of word characters (or is
  empty), \<open>parseAIResponse\<close> returns the parsed edit whose path is the trimmed rest of the
  label line and whose code is the interior of the first fenced block, whatever follows
  the block. Nothing is said here of a first block with another tag.
\<close>

theorem parse_well_formed_reply:
  assumes "after_label response = Some t"
    and "(\<exists>c\<in>set (takeWhile (\<lambda>x. x \<noteq> nl) t). \<not> is_space c)
         \<or> ((\<forall>c\<in>set t. is_space c) \<and> (\<exists>c\<in>set t. c \<noteq> nl))"
    and "first_tagged_block response = Some (tag, b)"
    and "\<forall>x\<in>set tag. is_word x"
  shows "parseAIResponse response =
         Some \<lparr>filePath = trim (takeWhile (\<lambda>x. x \<noteq> nl) t), codeBlock = b\<rparr>"
proof -
  let ?r = "takeWhile (\<lambda>x. x \<noteq> nl) t"
  have l: "label_line response = Some ?r" using assms(1) by (simp add: label_line_after)
  have c: "codeMatch response = Some b"
    using tagged_block_word [OF assms(3,4)] by (simp add: codeMatch_first_fenced_block)
  have "\<exists>g. fileMatch response = Some g \<and> trim g = trim ?r"
  proof (cases "\<exists>c\<in>set ?r. \<not> is_space c")
    case True
    then have "fileMatch response = Some (dropWhile is_space ?r)" using l label_fileMatch by blast
    then show ?thesis by (simp add: trim_dropWhile)
  next
    case False
    then have b: "\<forall>c\<in>set t. is_space c" "\<exists>c\<in>set t. c \<noteq> nl" using assms(2) by blast+
    obtain g where g: "fileMatch response = Some g" "\<forall>c\<in>set g. is_space c"
      using label_fileMatch_blank [OF assms(1) b] by blast
    have "\<forall>c\<in>set ?r. is_space c" using b(1) by (meson set_takeWhileD)
    then show ?thesis using g by (simp add: trim_blank)
  qed
  then show ?thesis using c by (auto simp: parseAIResponse_def)
qed


text \<open>The example of the specification (path \<open>src/a.txt\<close>, block \<open>hello\<close>, an explanation
  after it), and a reply whose label comes last, followed by spaces only.\<close>

theorem parse_well_formed_reply_witness:
  "after_label (js ''ARCHIVO: src/a.txt\<newline>```text\<newline>hello\<newline>```\<newline>EXPLICACI'' @ [0xD3] @ js ''N: ...'')
     = Some (js '' src/a.txt\<newline>```text\<newline>hello\<newline>```\<newline>EXPLICACI'' @ [0xD3] @ js ''N: ...'')
   \<and> first_tagged_block (js ''ARCHIVO: src/a.txt\<newline>```text\<newline>hello\<newline>```\<newline>EXPLICACI'' @ [0xD3] @ js ''N: ...'')
     = Some (js ''text'', js ''hello'')
   \<and> parseAIResponse (js ''ARCHIVO: src/a.txt\<newline>```text\<newline>hello\<newline>```\<newline>EXPLICACI'' @ [0xD3] @ js ''N: ...'')
     = Some \<lparr>filePath = js ''src/a.txt'', codeBlock = js ''hello''\<rparr>
   \<and> after_label (js ''```js\<newline>x\<newline>```\<newline>archivo:   '') = Some (js ''   '')
   \<and> first_tagged_block (js ''```js\<newline>x\<newline>```\<newline>archivo:   '') = Some (js ''js'', js ''x'')
   \<and> parseAIResponse (js ''```js\<newline>x\<newline>```\<newline>archivo:   '')
     = Some \<lparr>filePath = [], codeBlock = js ''x''\<rparr>"
proof -
  let ?reply = "js ''ARCHIVO: src/a.txt\<newline>```text\<newline>hello\<newline>```\<newline>EXPLICACI'' @ [0xD3] @ js ''N: ...''"
  let ?t = "js '' src/a.txt\<newline>```text\<newline>hello\<newline>```\<newline>EXPLICACI'' @ [0xD3] @ js ''N: ...''"
  let ?last = "js ''```js\<newline>x\<newline>```\<newline>archivo:   ''"
  have 1: "after_label ?reply = Some ?t" by code_simp
  have 2: "(\<exists>c\<in>set (takeWhile (\<lambda>x. x \<noteq> nl) ?t). \<not> is_space c)
         \<or> ((\<forall>c\<in>set ?t. is_space c) \<and> (\<exists>c\<in>set ?t. c \<noteq> nl))" by code_simp
  have 3: "first_tagged_block ?reply = Some (js ''text'', js ''hello'')" by code_simp
  have 4: "\<forall>x\<in>set (js ''text''). is_word x" by code_simp
  have 5: "trim (takeWhile (\<lambda>x. x \<noteq> nl) ?t) = js ''src/a.txt''" by code_simp
  have a: "parseAIResponse ?reply = Some \<lparr>filePath = js ''src/a.txt'', codeBlock = js ''hello''\<rparr>"
    using parse_well_formed_reply [OF 1 2 3 4] by (simp only: 5)
  have 6: "after_label ?last = Some (js ''   '')" by code_simp
  have 7: "(\<exists>c\<in>set (takeWhile (\<lambda>x. x \<noteq> nl) (js ''   '')). \<not> is_space c)
         \<or> ((\<forall>c\<in>set (js ''   ''). is_space c) \<and> (\<exists>c\<in>set (js ''   ''). c \<noteq> nl))" by code_simp
  have 8: "first_tagged_block ?last = Some (js ''js'', js ''x'')" by code_simp
  have 9: "\<forall>x\<in>set (js ''js''). is_word x" by code_simp
  have 10: "trim (takeWhile (\<lambda>x. x \<noteq> nl) (js ''   '')) = []" by code_simp
  have b: "parseAIResponse ?last = Some \<lparr>filePath = [], codeBlock = js ''x''\<rparr>"
    using parse_well_formed_reply [OF 6 7 8 9] by (simp only: 10)
  show ?thesis using 1 3 a 6 8 b by blast
qed

text \<open>
  C1 as stated fails on three replies that each have a label line and a fenced block.
  In the first the rest of the label line is empty: \<open>\s*\<close> runs over the line feed and the
  path returned is the next line, here the opening fence. In the second the label ends the
  reply: the pattern for the path needs a character after the label, and the result is
  \<open>null\<close>. In the third the language tag is \<open>c++\<close>: \<open>[\w]*\<close> does not accept it, and the
  result is \<open>null\<close>.
\<close>

theorem parse_label_line_counterexample:
  "label_line (js ''ARCHIVO:\<newline>```js\<newline>x\<newline>```'') = Some []
   \<and> first_tagged_block (js ''ARCHIVO:\<newline>```js\<newline>x\<newline>```'') = Some (js ''js'', js ''x'')
   \<and> parseAIResponse (js ''ARCHIVO:\<newline>```js\<newline>x\<newline>```'')
       = Some \<lparr>filePath = js ''```js'', codeBlock = js ''x''\<rparr>
   \<and> parseAIResponse (js ''ARCHIVO:\<newline>```js\<newline>x\<newline>```'')
       \<noteq> Some \<lparr>filePath = trim [], codeBlock = js ''x''\<rparr>
   \<and> label_line (js ''```js\<newline>x\<newline>```\<newline>ARCHIVO:'') = Some []
   \<and> first_tagged_block (js ''```js\<newline>x\<newline>```\<newline>ARCHIVO:'') = Some (js ''js'', js ''x'')
   \<and> parseAIResponse (js ''```js\<newline>x\<newline>```\<newline>ARCHIVO:'') = None
   \<and> label_line (js ''ARCHIVO: a.cpp\<newline>```c++\<newline>int x;\<newline>```'') = Some (js '' a.cpp'')
   \<and> first_tagged_block (js ''ARCHIVO: a.cpp\<newline>```c++\<newline>int x;\<newline>```'')
       = Some (js ''c++'', js ''int x;'')
   \<and> parseAIResponse (js ''ARCHIVO: a.cpp\<newline>```c++\<newline>int x;\<newline>```'') = None"
  by code_simp

section \<open>Properties of the apply stage and of the REPL\<close>

lemma on_line_parse_failure:
  assumes "parseAIResponse reply = None"
  shows "on_line lower input (Reply reply) st =
         (if is_exit_token lower input then on_close st else st)"
  using assms by (simp add: on_line_def is_exit_token_def Let_def)

lemma on_close_files: "files (on_close st) = files st"
  by (simp add: on_close_def Let_def)

text \<open>
  C2. A reply without the label \<open>ARCHIVO:\<close> or without a fenced block parses to \<open>null\<close>.
  The handler of the line then writes no file, and unless the line typed was an exit
  token it leaves the whole state as it was: no confirmation is opened, the process has
  not exited, and the prompt is shown again.
\<close>

theorem parse_failure_recoverable:
  assumes "label_line reply = None \<or> first_fenced_block reply = None"
  shows "parseAIResponse reply = None
       \<and> files (on_line lower input (Reply reply) st) = files st
       \<and> (\<not> is_exit_token lower input \<longrightarrow> on_line lower input (Reply reply) st = st)"
proof -
  have "fileMatch reply = None \<or> codeMatch reply = None"
    using assms no_label_no_fileMatch codeMatch_first_fenced_block by auto
  then have p: "parseAIResponse reply = None"
    by (auto simp: parseAIResponse_def split: option.splits)
  then show ?thesis
    by (simp add: on_line_parse_failure on_close_files)
qed

text \<open>A reply with no label, and a reply with the label and no fenced block, after the
  request \<open>hola\<close>.\<close>

theorem parse_failure_recoverable_witness:
  "label_line (js ''No puedo ayudar.'') = None
   \<and> first_fenced_block (js ''ARCHIVO: a.txt'') = None
   \<and> \<not> is_exit_token toLowerCase_latin1 (js ''hola'')
   \<and> parseAIResponse (js ''No puedo ayudar.'') = None
   \<and> parseAIResponse (js ''ARCHIVO: a.txt'') = None
   \<and> on_line toLowerCase_latin1 (js ''hola'') (Reply (js ''No puedo ayudar.''))
         (start Map.empty {} False False) = start Map.empty {} False False
   \<and> on_line toLowerCase_latin1 (js ''hola'') (Reply (js ''ARCHIVO: a.txt''))
         (start Map.empty {} False False) = start Map.empty {} False False"
proof -
  have 1: "label_line (js ''No puedo ayudar.'') = None" by code_simp
  have 2: "first_fenced_block (js ''ARCHIVO: a.txt'') = None" by code_simp
  have 3: "\<not> is_exit_token toLowerCase_latin1 (js ''hola'')" by code_simp
  show ?thesis
    using 1 2 3
      parse_failure_recoverable [of "js ''No puedo ayudar.''" toLowerCase_latin1 "js ''hola''"
        "start Map.empty {} False False"]
      parse_failure_recoverable [of "js ''ARCHIVO: a.txt''" toLowerCase_latin1 "js ''hola''"
        "start Map.empty {} False False"]
    by blast
qed

lemma apply_edit_success:
  assumes "filePath e \<notin> refused st" and "dirname (filePath e) \<notin> refused st"
  shows "apply_edit e st =
     st\<lparr>dirs := insert (dirname (filePath e)) (dirs st),
        files := (files st)(filePath e \<mapsto> codeBlock e)\<rparr>"
  using assms by (simp add: apply_edit_def mkdir_def writeFile_def Let_def)

lemma apply_edit_idem: "apply_edit e (apply_edit e st) = apply_edit e st"
  by (cases "dirname (filePath e) \<in> refused st"; cases "filePath e \<in> refused st")
     (simp_all add: apply_edit_def mkdir_def writeFile_def Let_def)

lemma answers_differ:
  "js ''c'' \<noteq> js ''s''" "js ''c'' \<noteq> js ''si''" "js ''c'' \<noteq> js ''s'' @ [0xED]"
  "js ''copiar'' \<noteq> js ''s''" "js ''copiar'' \<noteq> js ''si''" "js ''copiar'' \<noteq> js ''s'' @ [0xED]"
  by (simp_all add: js_def)

text \<open>
  C3. The answer is lower-cased and trimmed. \<open>s\<close>, \<open>si\<close> and \<open>s\<close> followed by i-acute run
  the write (and the target file then holds the code block, unless \<open>mkdir\<close> or
  \<open>writeFile\<close> throws); \<open>c\<close> and \<open>copiar\<close> run the clipboard copy and touch no file or
  directory; every other answer changes no file, no directory and not the clipboard.
\<close>

theorem confirmation_answers:
  "(trim (lower answer) \<in> {js ''s'', js ''si'', js ''s'' @ [0xED]} \<longrightarrow>
      on_answer lower e answer st = (apply_edit e st)\<lparr>confirming := None\<rparr>
      \<and> (filePath e \<notin> refused st \<and> dirname (filePath e) \<notin> refused st \<longrightarrow>
           files (on_answer lower e answer st) (filePath e) = Some (codeBlock e)))
   \<and> (trim (lower answer) \<in> {js ''c'', js ''copiar''} \<longrightarrow>
      on_answer lower e answer st = (copyToClipboard (codeBlock e) st)\<lparr>confirming := None\<rparr>
      \<and> (pbcopy st \<or> xclip st \<longrightarrow> clipboard (on_answer lower e answer st) = Some (codeBlock e))
      \<and> files (on_answer lower e answer st) = files st
      \<and> dirs (on_answer lower e answer st) = dirs st)
   \<and> (trim (lower answer) \<notin> {js ''s'', js ''si'', js ''s'' @ [0xED], js ''c'', js ''copiar''} \<longrightarrow>
      on_answer lower e answer st = st\<lparr>confirming := None\<rparr>
      \<and> files (on_answer lower e answer st) = files st
      \<and> dirs (on_answer lower e answer st) = dirs st
      \<and> clipboard (on_answer lower e answer st) = clipboard st)"
  using answers_differ
  by (auto simp: on_answer_def Let_def copyToClipboard_def apply_edit_success)

text \<open>The answers \<open>n\<close>, \<open>S\<close> with I-acute between white space, and \<open>Copiar\<close>.\<close>

theorem confirmation_answers_witness:
  "trim (toLowerCase_latin1 (js ''n'')) = js ''n''
   \<and> on_answer toLowerCase_latin1 \<lparr>filePath = js ''src/a.txt'', codeBlock = js ''hello''\<rparr> (js ''n'')
        (start Map.empty {} True False)
      = (start Map.empty {} True False)\<lparr>confirming := None\<rparr>
   \<and> trim (toLowerCase_latin1 (js '' S'' @ [0xCD, 0x0A])) = js ''s'' @ [0xED]
   \<and> files (on_answer toLowerCase_latin1 \<lparr>filePath = js ''src/a.txt'', codeBlock = js ''hello''\<rparr>
        (js '' S'' @ [0xCD, 0x0A]) (start Map.empty {} True False)) (js ''src/a.txt'')
      = Some (js ''hello'')
   \<and> trim (toLowerCase_latin1 (js ''Copiar'')) = js ''copiar''
   \<and> clipboard (on_answer toLowerCase_latin1 \<lparr>filePath = js ''src/a.txt'', codeBlock = js ''hello''\<rparr>
        (js ''Copiar'') (start Map.empty {} True False))
      = Some (js ''hello'')"
proof -
  let ?e = "\<lparr>filePath = js ''src/a.txt'', codeBlock = js ''hello''\<rparr>"
  let ?st = "start Map.empty {} True False"
  have n: "trim (toLowerCase_latin1 (js ''n'')) = js ''n''" by code_simp
  have s: "trim (toLowerCase_latin1 (js '' S'' @ [0xCD, 0x0A])) = js ''s'' @ [0xED]" by code_simp
  have c: "trim (toLowerCase_latin1 (js ''Copiar'')) = js ''copiar''" by code_simp
  have mn: "trim (toLowerCase_latin1 (js ''n''))
      \<notin> {js ''s'', js ''si'', js ''s'' @ [0xED], js ''c'', js ''copiar''}"
    unfolding n by (simp add: js_def)
  have ms: "trim (toLowerCase_latin1 (js '' S'' @ [0xCD, 0x0A])) \<in> {js ''s'', js ''si'', js ''s'' @ [0xED]}"
    unfolding s by simp
  have mc: "trim (toLowerCase_latin1 (js ''Copiar'')) \<in> {js ''c'', js ''copiar''}"
    unfolding c by simp
  have r: "filePath ?e \<notin> refused ?st \<and> dirname (filePath ?e) \<notin> refused ?st" "pbcopy ?st"
    by (simp_all add: start_def)
  have f: "filePath ?e = js ''src/a.txt''" "codeBlock ?e = js ''hello''" by simp_all
  have "on_answer toLowerCase_latin1 ?e (js ''n'') ?st = ?st\<lparr>confirming := None\<rparr>"
    using confirmation_answers [of toLowerCase_latin1 "js ''n''" ?e ?st] mn by blast
  moreover have "files (on_answer toLowerCase_latin1 ?e (js '' S'' @ [0xCD, 0x0A]) ?st) (filePath ?e)
      = Some (codeBlock ?e)"
    using confirmation_answers [of toLowerCase_latin1 "js '' S'' @ [0xCD, 0x0A]" ?e ?st] ms r by blast
  moreover have "clipboard (on_answer toLowerCase_latin1 ?e (js ''Copiar'') ?st) = Some (codeBlock ?e)"
    using confirmation_answers [of toLowerCase_latin1 "js ''Copiar''" ?e ?st] mc r by blast
  ultimately show ?thesis using n s c unfolding f by blast
qed

text \<open>
  C4. When \<open>mkdir\<close> and \<open>writeFile\<close> do not throw, applying a parsed edit leaves the target
  file with exactly the code block, whatever it held before; applying the same edit again
  gives the same state, so the same file content.
\<close>

theorem apply_overwrites_idempotent:
  assumes "filePath e \<notin> refused st" and "dirname (filePath e) \<notin> refused st"
  shows "files (apply_edit e st) (filePath e) = Some (codeBlock e)
       \<and> apply_edit e (apply_edit e st) = apply_edit e st"
  using assms by (simp add: apply_edit_idem apply_edit_success)

text \<open>Overwriting \<open>src/a.txt\<close>, which holds \<open>old text\<close>, with \<open>hello\<close>, twice.\<close>

theorem apply_overwrites_idempotent_witness:
  "filePath \<lparr>filePath = js ''src/a.txt'', codeBlock = js ''hello''\<rparr>
     \<notin> refused (start [js ''src/a.txt'' \<mapsto> js ''old text''] {} False False)
   \<and> dirname (filePath \<lparr>filePath = js ''src/a.txt'', codeBlock = js ''hello''\<rparr>)
     \<notin> refused (start [js ''src/a.txt'' \<mapsto> js ''old text''] {} False False)
   \<and> files (start [js ''src/a.txt'' \<mapsto> js ''old text''] {} False False) (js ''src/a.txt'')
     = Some (js ''old text'')
   \<and> files (apply_edit \<lparr>filePath = js ''src/a.txt'', codeBlock = js ''hello''\<rparr>
        (start [js ''src/a.txt'' \<mapsto> js ''old text''] {} False False)) (js ''src/a.txt'')
     = Some (js ''hello'')
   \<and> files (apply_edit \<lparr>filePath = js ''src/a.txt'', codeBlock = js ''hello''\<rparr>
        (apply_edit \<lparr>filePath = js ''src/a.txt'', codeBlock = js ''hello''\<rparr>
          (start [js ''src/a.txt'' \<mapsto> js ''old text''] {} False False))) (js ''src/a.txt'')
     = Some (js ''hello'')"
proof -
  let ?e = "\<lparr>filePath = js ''src/a.txt'', codeBlock = js ''hello''\<rparr>"
  let ?st = "start [js ''src/a.txt'' \<mapsto> js ''old text''] {} False False"
  have 1: "filePath ?e \<notin> refused ?st" by (simp add: start_def)
  have 2: "dirname (filePath ?e) \<notin> refused ?st" by (simp add: start_def)
  have 3: "files ?st (js ''src/a.txt'') = Some (js ''old text'')" by (simp add: start_def)
  show ?thesis using apply_overwrites_idempotent [OF 1 2] 1 2 3 by simp
qed

text \<open>
  C9, on three runs after a successful start and on a failed start. When the exit token
  is the first line and nothing else happens before the browser has closed, the browser is
  closed once and the exit code is 0, as the claim says. When a \<open>SIGINT\<close> comes while the
  handler of \<open>close\<close> waits for \<open>browser.close()\<close>, the handler of \<open>SIGINT\<close> calls it
  again: two calls. In the third run a request gets a reply that parses and the user
  answers \<open>n\<close>; the prompt's interface reads the same line as a request, which fails at
  the remote model. After the answer \<open>process.stdin\<close> is paused, the line \<open>exit\<close> reaches
  no handler, and the process neither closes the browser nor exits. When \<open>initAIWorker\<close>
  throws the exit code is 1.
\<close>

theorem exit_token_runs:
  "browser_closes (main toLowerCase_latin1 InitOk [Line (js ''exit'') RemoteError, Closed]
      (start Map.empty {} False False)) = 1
   \<and> exit_code (main toLowerCase_latin1 InitOk [Line (js ''exit'') RemoteError, Closed]
      (start Map.empty {} False False)) = Some 0
   \<and> browser_closes (main toLowerCase_latin1 InitOk
        [Line (js ''exit'') RemoteError, Interrupt, Closed]
        (start Map.empty {} False False)) = 2
   \<and> exit_code (main toLowerCase_latin1 InitOk
        [Line (js ''exit'') RemoteError, Interrupt, Closed]
        (start Map.empty {} False False)) = Some 0
   \<and> confirming (main toLowerCase_latin1 InitOk
        [Line (js ''hola'') (Reply (js ''ARCHIVO: a.txt\<newline>```\<newline>x\<newline>```''))]
        (start Map.empty {} False False))
      = Some \<lparr>filePath = js ''a.txt'', codeBlock = js ''x''\<rparr>
   \<and> stdin_paused (main toLowerCase_latin1 InitOk
        [Line (js ''hola'') (Reply (js ''ARCHIVO: a.txt\<newline>```\<newline>x\<newline>```'')),
         Line (js ''n'') RemoteError, Answer (js ''n'')]
        (start Map.empty {} False False))
   \<and> browser_closes (main toLowerCase_latin1 InitOk
        [Line (js ''hola'') (Reply (js ''ARCHIVO: a.txt\<newline>```\<newline>x\<newline>```'')),
         Line (js ''n'') RemoteError, Answer (js ''n''),
         Line (js ''exit'') RemoteError, Closed]
        (start Map.empty {} False False)) = 0
   \<and> exit_code (main toLowerCase_latin1 InitOk
        [Line (js ''hola'') (Reply (js ''ARCHIVO: a.txt\<newline>```\<newline>x\<newline>```'')),
         Line (js ''n'') RemoteError, Answer (js ''n''),
         Line (js ''exit'') RemoteError, Closed]
        (start Map.empty {} False False)) = None
   \<and> exit_code (main toLowerCase_latin1 InitFails [] (start Map.empty {} False False)) = Some 1"
  by code_simp

section \<open>Properties of the project context collector\<close>

lemma for_items_step:
  "for_items lower d (e # rest) (ctx, out) =
     for_items lower d rest (ctx @ fst (visit lower d e), out @ snd (visit lower d e))"
  by (cases e) (simp add: visit_def Let_def split: prod.splits option.splits)

lemma for_items_closed:
  "for_items lower d items (ctx, out) =
     (ctx @ concat (map (\<lambda>e. fst (visit lower d e)) items),
      out @ concat (map (\<lambda>e. snd (visit lower d e)) items))"
proof (induction items arbitrary: ctx out)
  case Nil
  then show ?case by simp
next
  case (Cons e rest)
  show ?case by (simp only: for_items_step Cons.IH) simp
qed

lemma context_Directory:
  "getProjectContext lower d (Directory items) =
     (concat (map (\<lambda>e. fst (visit lower d e)) items),
      concat (map (\<lambda>e. snd (visit lower d e)) items))"
  by (simp add: for_items_closed)

lemma entries_list_concat:
  "entries_list items =
     concat (map (\<lambda>e. ([fst e], snd e) # map (\<lambda>(p, m). (fst e # p, m)) (entries_of (snd e))) items)"
  by (induction items) auto

lemma entries_nonempty:
  "(p, m) \<in> set (entries_of n) \<Longrightarrow> p \<noteq> []"
  "(p, m) \<in> set (entries_list items) \<Longrightarrow> p \<noteq> []"
  by (induction n and items arbitrary: p and p rule: entries_of_entries_list.induct) auto

lemma map_filter_append: "List.map_filter f (xs @ ys) = List.map_filter f xs @ List.map_filter f ys"
  by (simp add: List.map_filter_def)

lemma map_filter_concat:
  "List.map_filter f (concat xss) = concat (map (List.map_filter f) xss)"
  by (induction xss) (simp_all add: map_filter_append map_filter_simps)

lemma map_filter_all_None: "(\<And>x. x \<in> set xs \<Longrightarrow> f x = None) \<Longrightarrow> List.map_filter f xs = []"
  by (induction xs) (simp_all add: map_filter_simps)

lemma pick_under_ignored: "name \<in> set ignoredItems \<Longrightarrow> pick lower (name # p, m) = None"
  by (simp add: pick_def ignored_path_def split: option.splits)

lemma pick_cons:
  "name \<notin> set ignoredItems \<Longrightarrow> p \<noteq> [] \<Longrightarrow>
     pick lower (name # p, m) = map_option (\<lambda>(q, c). (name # q, c)) (pick lower (p, m))"
  by (simp add: pick_def ignored_path_def split: option.splits)

lemma map_filter_pick_cons:
  assumes "name \<notin> set ignoredItems" and "\<And>p m. (p, m) \<in> set es \<Longrightarrow> p \<noteq> []"
  shows "List.map_filter (pick lower) (map (\<lambda>(p, m). (name # p, m)) es) =
         map (\<lambda>(q, c). (name # q, c)) (List.map_filter (pick lower) es)"
  using assms(2)
proof (induction es)
  case Nil
  then show ?case by (simp add: map_filter_simps)
next
  case (Cons e es)
  obtain p m where e: "e = (p, m)" by (cases e)
  have p: "p \<noteq> []" using Cons.prems [of p m] e by simp
  have ih: "List.map_filter (pick lower) (map (\<lambda>(p, m). (name # p, m)) es) =
         map (\<lambda>(q, c). (name # q, c)) (List.map_filter (pick lower) es)"
    by (rule Cons.IH) (use Cons.prems in auto)
  show ?case
    using ih pick_cons [OF assms(1) p, of lower m] e
    by (cases "pick lower (p, m)") (simp_all add: map_filter_simps)
qed

lemma render_cons: "render d (name # q, c) = render (d @ [name]) (q, c)"
  by (simp add: render_def)

lemma context_files_Directory:
  "context_files lower (Directory items) =
     concat (map (\<lambda>e. List.map_filter (pick lower) (below e)) items)"
  by (simp add: context_files_def entries_list_concat map_filter_concat below_def comp_def)

lemma pick_single:
  "pick lower ([name], n) =
     (case readFile n of
        Some content \<Rightarrow>
          if name \<in> set ignoredItems \<or> lower (extname name) \<in> set ignoredExtensions then None
          else Some ([name], content)
      | None \<Rightarrow> None)"
  by (cases "readFile n") (simp_all add: pick_def ignored_path_def)

lemma below_ignored:
  assumes "name \<in> set ignoredItems"
  shows "List.map_filter (pick lower) (below (name, n)) = []"
proof (rule map_filter_all_None)
  fix x assume "x \<in> set (below (name, n))"
  then obtain p m where "x = (name # p, m)" by (auto simp: below_def)
  then show "pick lower x = None" using assms pick_under_ignored by simp
qed

lemma below_kept:
  assumes "name \<notin> set ignoredItems"
  shows "List.map_filter (pick lower) (below (name, n)) =
         List.map_filter (pick lower) [([name], n)]
         @ map (\<lambda>(q, c). (name # q, c)) (context_files lower n)"
proof -
  have "\<And>p m. (p, m) \<in> set (entries_of n) \<Longrightarrow> p \<noteq> []" using entries_nonempty(1) by blast
  then have "List.map_filter (pick lower) (map (\<lambda>(p, m). (name # p, m)) (entries_of n)) =
      map (\<lambda>(q, c). (name # q, c)) (List.map_filter (pick lower) (entries_of n))"
    using assms map_filter_pick_cons by blast
  then show ?thesis
    by (simp add: below_def context_files_def map_filter_simps split: option.splits)
qed

lemma context_files_leaf:
  "\<not> isDirectory n \<or> n = BadDirectory \<Longrightarrow> context_files lower n = []"
  by (cases n) (simp_all add: context_files_def map_filter_simps isDirectory_def)

lemma render_map_cons:
  "map (render d) (map (\<lambda>(q, c). (name # q, c)) fs) = map (render (d @ [name])) fs"
  by (induction fs) (auto simp: render_def)

lemma visit_closed:
  assumes "\<And>d. fst (getProjectContext lower d n) = concat (map (render d) (context_files lower n))"
  shows "fst (visit lower d (name, n)) =
         concat (map (render d) (List.map_filter (pick lower) (below (name, n))))"
proof (cases "name \<in> set ignoredItems")
  case True
  then show ?thesis by (simp add: below_ignored visit_def)
next
  case False
  have sub: "concat (map (render d) (map (\<lambda>(q, c). (name # q, c)) (context_files lower n))) =
      fst (getProjectContext lower (d @ [name]) n)"
    by (simp only: render_map_cons assms)
  show ?thesis
  proof (cases n)
    case (RegFile content)
    then show ?thesis using False
      by (simp add: below_kept visit_def isDirectory_def isFile_def readFile_def pick_single
          map_filter_simps context_files_leaf render_def)
  next
    case BadFile
    then show ?thesis using False
      by (simp add: below_kept visit_def isDirectory_def isFile_def readFile_def pick_single
          map_filter_simps context_files_leaf Let_def)
  next
    case (Directory items)
    then have "List.map_filter (pick lower) [([name], n)] = []"
      by (simp add: pick_single readFile_def map_filter_simps)
    then show ?thesis using False Directory sub
      by (simp add: below_kept visit_def isDirectory_def)
  next
    case BadDirectory
    then show ?thesis using False
      by (simp add: below_kept visit_def isDirectory_def isFile_def readFile_def pick_single
          map_filter_simps context_files_leaf Let_def)
  next
    case NoStat
    then show ?thesis using False
      by (simp add: below_kept visit_def isDirectory_def isFile_def readFile_def pick_single
          map_filter_simps context_files_leaf Let_def)
  next
    case Special
    then show ?thesis using False
      by (simp add: below_kept visit_def isDirectory_def isFile_def readFile_def pick_single
          map_filter_simps context_files_leaf Let_def)
  qed
qed

lemma concat_map_concat:
  "concat (map f (concat xss)) = concat (map (\<lambda>xs. concat (map f xs)) xss)"
  by (induction xss) simp_all

lemma context_closed:
  "fst (getProjectContext lower d n) = concat (map (render d) (context_files lower n))"
proof (induction n arbitrary: d)
  case (Directory items)
  have "\<And>e. e \<in> set items \<Longrightarrow>
      fst (visit lower d e) = concat (map (render d) (List.map_filter (pick lower) (below e)))"
  proof -
    fix e assume e: "e \<in> set items"
    obtain name n where ne: "e = (name, n)" by (cases e)
    have "\<And>d. fst (getProjectContext lower d n) = concat (map (render d) (context_files lower n))"
      using Directory.IH [of e n] e ne by simp
    then show "fst (visit lower d e) = concat (map (render d) (List.map_filter (pick lower) (below e)))"
      unfolding ne by (rule visit_closed)
  qed
  then have m: "map (\<lambda>e. fst (visit lower d e)) items =
      map (\<lambda>e. concat (map (render d) (List.map_filter (pick lower) (below e)))) items"
    by simp
  show ?case
    unfolding context_Directory fst_conv m context_files_Directory concat_map_concat
    by (simp add: comp_def)
qed (simp_all add: context_files_def map_filter_simps)

lemma entries_at_path:
  "(p, m) \<in> set (entries_of n) \<longleftrightarrow> p \<noteq> [] \<and> at_path n p m"
  "(p, m) \<in> set (entries_list items) \<longleftrightarrow> (\<exists>x xs. p = x # xs \<and> in_items items x xs m)"
proof (induction n and items arbitrary: p and p rule: entries_of_entries_list.induct)
  case (1 items)
  then show ?case by (cases p) auto
next
  case (2 v)
  then show ?case by (cases p) auto
next
  case 3
  then show ?case by (cases p) auto
next
  case 4
  then show ?case by (cases p) auto
next
  case 5
  then show ?case by (cases p) auto
next
  case 6
  then show ?case by (cases p) auto
next
  case 7
  then show ?case by simp
next
  case (8 name n rest)
  show ?case
  proof (cases p)
    case Nil
    then show ?thesis using 8 by auto
  next
    case (Cons x xs)
    show ?thesis
    proof (cases xs)
      case Nil
      then show ?thesis using 8 Cons by auto
    next
      case (Cons y ys)
      then show ?thesis using 8 \<open>p = x # xs\<close> by auto
    qed
  qed
qed

lemma pick_Some:
  "pick lower (p, n) = Some (q, c) \<longleftrightarrow> q = p \<and> n = RegFile c \<and> \<not> ignored_path lower p"
  by (cases n) (auto simp: pick_def readFile_def)

lemma set_map_filter: "set (List.map_filter f xs) = {y. \<exists>x\<in>set xs. f x = Some y}"
  by (induction xs) (auto simp: map_filter_simps split: option.splits)

lemma context_files_set:
  "(p, c) \<in> set (context_files lower root) \<longleftrightarrow>
     p \<noteq> [] \<and> at_path root p (RegFile c) \<and> \<not> ignored_path lower p"
proof -
  have "(p, c) \<in> set (context_files lower root) \<longleftrightarrow>
      (\<exists>e\<in>set (entries_of root). pick lower e = Some (p, c))"
    by (simp add: context_files_def set_map_filter)
  also have "\<dots> \<longleftrightarrow> (p, RegFile c) \<in> set (entries_of root) \<and> \<not> ignored_path lower p"
    using pick_Some by (metis prod.collapse)
  finally show ?thesis by (simp add: entries_at_path(1) conj_assoc)
qed

lemma visit_ignored: "name \<in> set ignoredItems \<Longrightarrow> visit lower d (name, n) = ([], [])"
  by (simp add: visit_def)

lemma visit_without_name:
  assumes "\<And>d. getProjectContext lower d (without_name nm n) = getProjectContext lower d n"
  shows "visit lower d (name, without_name nm n) = visit lower d (name, n)"
  using assms by (cases n) (simp_all add: visit_def Let_def isDirectory_def isFile_def readFile_def)

lemma items_without_name:
  assumes "nm \<in> set ignoredItems"
    and "\<And>name n d. (name, n) \<in> set items \<Longrightarrow>
     getProjectContext lower d (without_name nm n) = getProjectContext lower d n"
  shows "concat (map (\<lambda>e. fst (visit lower d e)) (without_name_items nm items)) =
         concat (map (\<lambda>e. fst (visit lower d e)) items)
       \<and> concat (map (\<lambda>e. snd (visit lower d e)) (without_name_items nm items)) =
         concat (map (\<lambda>e. snd (visit lower d e)) items)"
  using assms(2)
proof (induction items)
  case Nil
  then show ?case by simp
next
  case (Cons e rest)
  obtain name n where e: "e = (name, n)" by (cases e)
  have ih: "concat (map (\<lambda>e. fst (visit lower d e)) (without_name_items nm rest)) =
         concat (map (\<lambda>e. fst (visit lower d e)) rest)
       \<and> concat (map (\<lambda>e. snd (visit lower d e)) (without_name_items nm rest)) =
         concat (map (\<lambda>e. snd (visit lower d e)) rest)"
    by (rule Cons.IH) (use Cons.prems in auto)
  have n: "\<And>d. getProjectContext lower d (without_name nm n) = getProjectContext lower d n"
    by (rule Cons.prems [of name n]) (simp add: e)
  show ?case
  proof (cases "name = nm")
    case True
    then show ?thesis using ih e visit_ignored [OF assms(1), of lower d n] by simp
  next
    case False
    then show ?thesis using ih e visit_without_name [OF n, of d name] by simp
  qed
qed

lemma context_without_name:
  assumes "nm \<in> set ignoredItems"
  shows "getProjectContext lower d (without_name nm n) = getProjectContext lower d n"
proof (induction n arbitrary: d)
  case (Directory items)
  have "\<And>name n d. (name, n) \<in> set items \<Longrightarrow>
     getProjectContext lower d (without_name nm n) = getProjectContext lower d n"
    using Directory.IH by fastforce
  then show ?case
    unfolding without_name.simps context_Directory
    using items_without_name [OF assms] by simp
qed simp_all


text \<open>
  C5. The context is the concatenation, over the files of \<open>context_files\<close> in order, of
  the header line with the path, the text of the file and the footer line with the path;
  and a file with its text is among them exactly when it is a readable regular file
  below the root, no name on its path (its own or a directory's above it) is in the
  ignore set, and the lower-cased extension of its name is not in the extension set. So
  nothing ignored is included and no readable file that is not ignored is left out.
\<close>

theorem collector_selects_exactly:
  "fst (getProjectContext lower [] root) =
     concat (map (\<lambda>(p, content).
         js ''--- INICIO ARCHIVO: '' @ join_path p @ js '' ---\<newline>'' @ content
         @ js ''\<newline>--- FIN ARCHIVO: '' @ join_path p @ js '' ---\<newline>\<newline>'')
       (context_files lower root))
   \<and> (\<forall>p c. (p, c) \<in> set (context_files lower root) \<longleftrightarrow>
          p \<noteq> [] \<and> at_path root p (RegFile c)
          \<and> (\<forall>x\<in>set p. x \<notin> set ignoredItems)
          \<and> lower (extname (last p)) \<notin> set ignoredExtensions)"
proof -
  have "render [] = (\<lambda>(p, content).
          js ''--- INICIO ARCHIVO: '' @ join_path p @ js '' ---\<newline>'' @ content
          @ js ''\<newline>--- FIN ARCHIVO: '' @ join_path p @ js '' ---\<newline>\<newline>'')"
    by (rule ext) (simp add: render_def file_block_def split: prod.splits)
  then have "fst (getProjectContext lower [] root) =
     concat (map (\<lambda>(p, content).
         js ''--- INICIO ARCHIVO: '' @ join_path p @ js '' ---\<newline>'' @ content
         @ js ''\<newline>--- FIN ARCHIVO: '' @ join_path p @ js '' ---\<newline>\<newline>'')
       (context_files lower root))"
    using context_closed [of lower "[]" root] by simp
  then show ?thesis
    by (simp add: context_files_set ignored_path_def)
qed

text \<open>A tree with an image, a build directory and a nested \<open>index.js\<close>: the context
  holds \<open>README.md\<close> and \<open>src/a.txt\<close> only.\<close>

theorem collector_selects_exactly_witness:
  "fst (getProjectContext toLowerCase_latin1 []
      (Directory [(js ''README.md'', RegFile (js ''hi'')),
                  (js ''logo.PNG'', RegFile (js ''img'')),
                  (js ''src'', Directory [(js ''index.js'', RegFile (js ''inner'')),
                                          (js ''a.txt'', RegFile (js ''A''))]),
                  (js ''dist'', Directory [(js ''m.txt'', RegFile (js ''out''))])]))
     = js ''--- INICIO ARCHIVO: README.md ---\<newline>hi\<newline>--- FIN ARCHIVO: README.md ---\<newline>\<newline>--- INICIO ARCHIVO: src/a.txt ---\<newline>A\<newline>--- FIN ARCHIVO: src/a.txt ---\<newline>\<newline>''
   \<and> ([js ''src'', js ''a.txt''], js ''A'') \<in> set (context_files toLowerCase_latin1
      (Directory [(js ''README.md'', RegFile (js ''hi'')),
                  (js ''logo.PNG'', RegFile (js ''img'')),
                  (js ''src'', Directory [(js ''index.js'', RegFile (js ''inner'')),
                                          (js ''a.txt'', RegFile (js ''A''))]),
                  (js ''dist'', Directory [(js ''m.txt'', RegFile (js ''out''))])]))
   \<and> ([js ''dist'', js ''m.txt''], js ''out'') \<notin> set (context_files toLowerCase_latin1
      (Directory [(js ''README.md'', RegFile (js ''hi'')),
                  (js ''logo.PNG'', RegFile (js ''img'')),
                  (js ''src'', Directory [(js ''index.js'', RegFile (js ''inner'')),
                                          (js ''a.txt'', RegFile (js ''A''))]),
                  (js ''dist'', Directory [(js ''m.txt'', RegFile (js ''out''))])]))
   \<and> ([js ''logo.PNG''], js ''img'') \<notin> set (context_files toLowerCase_latin1
      (Directory [(js ''README.md'', RegFile (js ''hi'')),
                  (js ''logo.PNG'', RegFile (js ''img'')),
                  (js ''src'', Directory [(js ''index.js'', RegFile (js ''inner'')),
                                          (js ''a.txt'', RegFile (js ''A''))]),
                  (js ''dist'', Directory [(js ''m.txt'', RegFile (js ''out''))])]))"
proof -
  let ?T = "Directory [(js ''README.md'', RegFile (js ''hi'')),
                  (js ''logo.PNG'', RegFile (js ''img'')),
                  (js ''src'', Directory [(js ''index.js'', RegFile (js ''inner'')),
                                          (js ''a.txt'', RegFile (js ''A''))]),
                  (js ''dist'', Directory [(js ''m.txt'', RegFile (js ''out''))])]"
  note inst = collector_selects_exactly [of toLowerCase_latin1 ?T]
  have cf: "concat (map (\<lambda>(p, content).
         js ''--- INICIO ARCHIVO: '' @ join_path p @ js '' ---\<newline>'' @ content
         @ js ''\<newline>--- FIN ARCHIVO: '' @ join_path p @ js '' ---\<newline>\<newline>'')
       (context_files toLowerCase_latin1 ?T))
      = js ''--- INICIO ARCHIVO: README.md ---\<newline>hi\<newline>--- FIN ARCHIVO: README.md ---\<newline>\<newline>--- INICIO ARCHIVO: src/a.txt ---\<newline>A\<newline>--- FIN ARCHIVO: src/a.txt ---\<newline>\<newline>''"
    by code_simp
  have a1: "[js ''src'', js ''a.txt''] \<noteq> []
      \<and> at_path ?T [js ''src'', js ''a.txt''] (RegFile (js ''A''))
      \<and> (\<forall>x\<in>set [js ''src'', js ''a.txt'']. x \<notin> set ignoredItems)
      \<and> toLowerCase_latin1 (extname (last [js ''src'', js ''a.txt''])) \<notin> set ignoredExtensions"
    by code_simp
  have a2: "\<not> (\<forall>x\<in>set [js ''dist'', js ''m.txt'']. x \<notin> set ignoredItems)"
    by code_simp
  have a3: "\<not> toLowerCase_latin1 (extname (last [js ''logo.PNG''])) \<notin> set ignoredExtensions"
    by code_simp
  have 1: "fst (getProjectContext toLowerCase_latin1 [] ?T)
      = js ''--- INICIO ARCHIVO: README.md ---\<newline>hi\<newline>--- FIN ARCHIVO: README.md ---\<newline>\<newline>--- INICIO ARCHIVO: src/a.txt ---\<newline>A\<newline>--- FIN ARCHIVO: src/a.txt ---\<newline>\<newline>''"
    by (rule trans [OF inst [THEN conjunct1] cf])
  have 2: "([js ''src'', js ''a.txt''], js ''A'') \<in> set (context_files toLowerCase_latin1 ?T)"
    using inst a1 by blast
  have 3: "([js ''dist'', js ''m.txt''], js ''out'') \<notin> set (context_files toLowerCase_latin1 ?T)"
    using inst a2 by blast
  have 4: "([js ''logo.PNG''], js ''img'') \<notin> set (context_files toLowerCase_latin1 ?T)"
    using inst a3 by blast
  show ?thesis using 1 2 3 4 by blast
qed


text \<open>
  C6, on a listing with a file whose read fails (\<open>secret\<close>), an entry whose \<open>stat\<close> fails
  (\<open>gone\<close>) and a file \<open>data.bin\<close> whose bytes \<open>FF FE 41\<close> are not UTF-8, between two
  readable files. The first two are skipped with their warnings and the walk goes on to
  \<open>b.txt\<close>. The file that does not decode is not skipped: its block, with whatever the
  decoder returns for the bytes, is in the context, and no warning is printed for it.
\<close>

theorem undecodable_file_included:
  "getProjectContext toLowerCase_latin1 []
     (Directory [(js ''a.txt'', RegFile (js ''A'')),
                 (js ''secret'', BadFile),
                 (js ''gone'', NoStat),
                 (js ''data.bin'', utf8_file decode (Some [0xFF, 0xFE, 0x41])),
                 (js ''b.txt'', RegFile (js ''B''))])
   = (js ''--- INICIO ARCHIVO: a.txt ---\<newline>A\<newline>--- FIN ARCHIVO: a.txt ---\<newline>\<newline>''
      @ js ''--- INICIO ARCHIVO: data.bin ---\<newline>'' @ decode [0xFF, 0xFE, 0x41]
      @ js ''\<newline>--- FIN ARCHIVO: data.bin ---\<newline>\<newline>''
      @ js ''--- INICIO ARCHIVO: b.txt ---\<newline>B\<newline>--- FIN ARCHIVO: b.txt ---\<newline>\<newline>'',
      [Unreadable (js ''secret''), NoAccess (js ''gone'')])"
proof -
  have i: "js ''a.txt'' \<notin> set ignoredItems" "js ''secret'' \<notin> set ignoredItems"
    "js ''gone'' \<notin> set ignoredItems" "js ''data.bin'' \<notin> set ignoredItems"
    "js ''b.txt'' \<notin> set ignoredItems"
    by code_simp+
  have x: "toLowerCase_latin1 (extname (js ''a.txt'')) \<notin> set ignoredExtensions"
    "toLowerCase_latin1 (extname (js ''secret'')) \<notin> set ignoredExtensions"
    "toLowerCase_latin1 (extname (js ''data.bin'')) \<notin> set ignoredExtensions"
    "toLowerCase_latin1 (extname (js ''b.txt'')) \<notin> set ignoredExtensions"
    by code_simp+
  have b: "file_block (js ''a.txt'') (js ''A'')
      = js ''--- INICIO ARCHIVO: a.txt ---\<newline>A\<newline>--- FIN ARCHIVO: a.txt ---\<newline>\<newline>''"
    "file_block (js ''b.txt'') (js ''B'')
      = js ''--- INICIO ARCHIVO: b.txt ---\<newline>B\<newline>--- FIN ARCHIVO: b.txt ---\<newline>\<newline>''"
    by code_simp+
  have d: "file_block (js ''data.bin'') c
      = js ''--- INICIO ARCHIVO: data.bin ---\<newline>'' @ c
        @ js ''\<newline>--- FIN ARCHIVO: data.bin ---\<newline>\<newline>''" for c
    by (simp add: file_block_def js_def)
  show ?thesis
    by (simp add: i x b d utf8_file_def isDirectory_def isFile_def readFile_def Let_def
        del: append_assoc)
qed


text \<open>
  C7. The context of a listing is the concatenation of the contexts of its parts, in
  listing order; an included file contributes the header marker with its relative path,
  its raw text and the footer marker with the path; a subdirectory contributes, at its
  place in the listing, the whole context of its own listing, with relative paths that
  go through its name; an empty directory contributes nothing. Over the whole tree this
  is the concatenation of the blocks of the included files in depth-first order.
\<close>

theorem context_concatenation:
  "fst (getProjectContext lower d (Directory (xs @ ys))) =
     fst (getProjectContext lower d (Directory xs)) @ fst (getProjectContext lower d (Directory ys))
   \<and> (item \<notin> set ignoredItems \<and> lower (extname item) \<notin> set ignoredExtensions \<longrightarrow>
        fst (getProjectContext lower d (Directory [(item, RegFile content)])) =
          js ''--- INICIO ARCHIVO: '' @ join_path (d @ [item]) @ js '' ---\<newline>'' @ content
          @ js ''\<newline>--- FIN ARCHIVO: '' @ join_path (d @ [item]) @ js '' ---\<newline>\<newline>'')
   \<and> (item \<notin> set ignoredItems \<longrightarrow>
        fst (getProjectContext lower d (Directory [(item, Directory sub)])) =
          fst (getProjectContext lower (d @ [item]) (Directory sub)))
   \<and> fst (getProjectContext lower d (Directory [])) = []
   \<and> fst (getProjectContext lower [] root) =
        concat (map (\<lambda>(p, content).
            js ''--- INICIO ARCHIVO: '' @ join_path p @ js '' ---\<newline>'' @ content
            @ js ''\<newline>--- FIN ARCHIVO: '' @ join_path p @ js '' ---\<newline>\<newline>'')
          (context_files lower root))"
proof -
  have "render [] = (\<lambda>(p, content).
            js ''--- INICIO ARCHIVO: '' @ join_path p @ js '' ---\<newline>'' @ content
            @ js ''\<newline>--- FIN ARCHIVO: '' @ join_path p @ js '' ---\<newline>\<newline>'')"
    by (rule ext) (simp add: render_def file_block_def split: prod.splits)
  then have "fst (getProjectContext lower [] root) =
        concat (map (\<lambda>(p, content).
            js ''--- INICIO ARCHIVO: '' @ join_path p @ js '' ---\<newline>'' @ content
            @ js ''\<newline>--- FIN ARCHIVO: '' @ join_path p @ js '' ---\<newline>\<newline>'')
          (context_files lower root))"
    using context_closed [of lower "[]" root] by simp
  then show ?thesis
    by (simp add: context_Directory visit_def Let_def isDirectory_def isFile_def readFile_def
        file_block_def del: getProjectContext.simps)
qed

text \<open>The file \<open>a.txt\<close> in \<open>src\<close>, and a listing with \<open>z.md\<close> before the directory
  \<open>src\<close>.\<close>

theorem context_concatenation_witness:
  "js ''a.txt'' \<notin> set ignoredItems
   \<and> toLowerCase_latin1 (extname (js ''a.txt'')) \<notin> set ignoredExtensions
   \<and> fst (getProjectContext toLowerCase_latin1 [js ''src''] (Directory [(js ''a.txt'', RegFile (js ''A''))]))
     = js ''--- INICIO ARCHIVO: src/a.txt ---\<newline>A\<newline>--- FIN ARCHIVO: src/a.txt ---\<newline>\<newline>''
   \<and> js ''src'' \<notin> set ignoredItems
   \<and> fst (getProjectContext toLowerCase_latin1 []
        (Directory ([(js ''z.md'', RegFile (js ''Z''))] @ [(js ''src'', Directory [(js ''a.txt'', RegFile (js ''A''))])])))
     = js ''--- INICIO ARCHIVO: z.md ---\<newline>Z\<newline>--- FIN ARCHIVO: z.md ---\<newline>\<newline>''
       @ js ''--- INICIO ARCHIVO: src/a.txt ---\<newline>A\<newline>--- FIN ARCHIVO: src/a.txt ---\<newline>\<newline>''"
proof -
  let ?l = toLowerCase_latin1
  have h: "js ''a.txt'' \<notin> set ignoredItems \<and> ?l (extname (js ''a.txt'')) \<notin> set ignoredExtensions"
    "js ''z.md'' \<notin> set ignoredItems \<and> ?l (extname (js ''z.md'')) \<notin> set ignoredExtensions"
    "js ''src'' \<notin> set ignoredItems"
    by code_simp+
  have j: "js ''--- INICIO ARCHIVO: '' @ join_path ([js ''src''] @ [js ''a.txt'']) @ js '' ---\<newline>'' @ js ''A''
          @ js ''\<newline>--- FIN ARCHIVO: '' @ join_path ([js ''src''] @ [js ''a.txt'']) @ js '' ---\<newline>\<newline>''
      = js ''--- INICIO ARCHIVO: src/a.txt ---\<newline>A\<newline>--- FIN ARCHIVO: src/a.txt ---\<newline>\<newline>''"
    "js ''--- INICIO ARCHIVO: '' @ join_path ([] @ [js ''z.md'']) @ js '' ---\<newline>'' @ js ''Z''
          @ js ''\<newline>--- FIN ARCHIVO: '' @ join_path ([] @ [js ''z.md'']) @ js '' ---\<newline>\<newline>''
      = js ''--- INICIO ARCHIVO: z.md ---\<newline>Z\<newline>--- FIN ARCHIVO: z.md ---\<newline>\<newline>''"
    by code_simp+
  have a0: "fst (getProjectContext ?l [js ''src''] (Directory [(js ''a.txt'', RegFile (js ''A''))]))
      = js ''--- INICIO ARCHIVO: '' @ join_path ([js ''src''] @ [js ''a.txt'']) @ js '' ---\<newline>'' @ js ''A''
          @ js ''\<newline>--- FIN ARCHIVO: '' @ join_path ([js ''src''] @ [js ''a.txt'']) @ js '' ---\<newline>\<newline>''"
    using context_concatenation [of ?l "[js ''src'']" "[]" "[]" "js ''a.txt''" "js ''A''" "[]"] h(1)
    by blast
  have a: "fst (getProjectContext ?l [js ''src''] (Directory [(js ''a.txt'', RegFile (js ''A''))]))
      = js ''--- INICIO ARCHIVO: src/a.txt ---\<newline>A\<newline>--- FIN ARCHIVO: src/a.txt ---\<newline>\<newline>''"
    by (rule trans [OF a0 j(1)])
  have z0: "fst (getProjectContext ?l [] (Directory [(js ''z.md'', RegFile (js ''Z''))]))
      = js ''--- INICIO ARCHIVO: '' @ join_path ([] @ [js ''z.md'']) @ js '' ---\<newline>'' @ js ''Z''
          @ js ''\<newline>--- FIN ARCHIVO: '' @ join_path ([] @ [js ''z.md'']) @ js '' ---\<newline>\<newline>''"
    using context_concatenation [of ?l "[]" "[]" "[]" "js ''z.md''" "js ''Z''" "[]"] h(2)
    by blast
  have z: "fst (getProjectContext ?l [] (Directory [(js ''z.md'', RegFile (js ''Z''))]))
      = js ''--- INICIO ARCHIVO: z.md ---\<newline>Z\<newline>--- FIN ARCHIVO: z.md ---\<newline>\<newline>''"
    by (rule trans [OF z0 j(2)])
  have s: "fst (getProjectContext ?l [] (Directory [(js ''src'', Directory [(js ''a.txt'', RegFile (js ''A''))])]))
      = fst (getProjectContext ?l ([] @ [js ''src'']) (Directory [(js ''a.txt'', RegFile (js ''A''))]))"
    using context_concatenation [of ?l "[]" "[]" "[]" "js ''src''" "[]" "[(js ''a.txt'', RegFile (js ''A''))]"] h(3)
    by blast
  have c: "fst (getProjectContext ?l []
        (Directory ([(js ''z.md'', RegFile (js ''Z''))] @ [(js ''src'', Directory [(js ''a.txt'', RegFile (js ''A''))])])))
      = fst (getProjectContext ?l [] (Directory [(js ''z.md'', RegFile (js ''Z''))]))
        @ fst (getProjectContext ?l [] (Directory [(js ''src'', Directory [(js ''a.txt'', RegFile (js ''A''))])]))"
    using context_concatenation [of ?l "[]" "[(js ''z.md'', RegFile (js ''Z''))]"
        "[(js ''src'', Directory [(js ''a.txt'', RegFile (js ''A''))])]" "[]" "[]" "[]"]
    by blast
  have "fst (getProjectContext ?l []
        (Directory ([(js ''z.md'', RegFile (js ''Z''))] @ [(js ''src'', Directory [(js ''a.txt'', RegFile (js ''A''))])])))
     = js ''--- INICIO ARCHIVO: z.md ---\<newline>Z\<newline>--- FIN ARCHIVO: z.md ---\<newline>\<newline>''
       @ js ''--- INICIO ARCHIVO: src/a.txt ---\<newline>A\<newline>--- FIN ARCHIVO: src/a.txt ---\<newline>\<newline>''"
    unfolding c z s using a by simp
  then show ?thesis using h a by blast
qed


text \<open>
  C10. The name \<open>index.js\<close> is in the ignore set, and for a name of the ignore set the
  collector returns the same context and prints the same lines as on the tree from which
  every entry of that name, file or directory, at every depth, has been removed.
\<close>

theorem ignored_names_every_depth:
  "js ''index.js'' \<in> set ignoredItems
   \<and> (nm \<in> set ignoredItems \<longrightarrow>
        getProjectContext lower d (without_name nm root) = getProjectContext lower d root)"
  by (simp add: context_without_name) (simp add: ignoredItems_def)

text \<open>Entries named \<open>index.js\<close> at the root, in a subdirectory and as a directory
  two levels down.\<close>

theorem ignored_names_every_depth_witness:
  "js ''index.js'' \<in> set ignoredItems
   \<and> without_name (js ''index.js'')
        (Directory [(js ''index.js'', RegFile (js ''tool'')),
                    (js ''src'', Directory [(js ''index.js'', RegFile (js ''inner'')),
                                            (js ''a.txt'', RegFile (js ''A'')),
                                            (js ''lib'', Directory [(js ''index.js'', Directory [(js ''x.txt'', RegFile (js ''X''))])])])])
     = Directory [(js ''src'', Directory [(js ''a.txt'', RegFile (js ''A'')),
                                          (js ''lib'', Directory [])])]
   \<and> getProjectContext toLowerCase_latin1 []
        (Directory [(js ''index.js'', RegFile (js ''tool'')),
                    (js ''src'', Directory [(js ''index.js'', RegFile (js ''inner'')),
                                            (js ''a.txt'', RegFile (js ''A'')),
                                            (js ''lib'', Directory [(js ''index.js'', Directory [(js ''x.txt'', RegFile (js ''X''))])])])])
     = getProjectContext toLowerCase_latin1 []
        (Directory [(js ''src'', Directory [(js ''a.txt'', RegFile (js ''A'')),
                                            (js ''lib'', Directory [])])])"
proof -
  let ?T = "Directory [(js ''index.js'', RegFile (js ''tool'')),
                    (js ''src'', Directory [(js ''index.js'', RegFile (js ''inner'')),
                                            (js ''a.txt'', RegFile (js ''A'')),
                                            (js ''lib'', Directory [(js ''index.js'', Directory [(js ''x.txt'', RegFile (js ''X''))])])])]"
  have w: "without_name (js ''index.js'') ?T
     = Directory [(js ''src'', Directory [(js ''a.txt'', RegFile (js ''A'')),
                                          (js ''lib'', Directory [])])]"
    by code_simp
  note inst = ignored_names_every_depth [of "js ''index.js''" toLowerCase_latin1 "[]" ?T]
  have i: "js ''index.js'' \<in> set ignoredItems" using inst by blast
  have "getProjectContext toLowerCase_latin1 [] (without_name (js ''index.js'') ?T)
      = getProjectContext toLowerCase_latin1 [] ?T"
    using inst by blast
  then have "getProjectContext toLowerCase_latin1 [] ?T
      = getProjectContext toLowerCase_latin1 []
        (Directory [(js ''src'', Directory [(js ''a.txt'', RegFile (js ''A'')),
                                            (js ''lib'', Directory [])])])"
    unfolding w by (rule sym)
  then show ?thesis using i w by blast
qed


section \<open>Properties of the preview\<close>

lemma split_lines_nonempty: "split_lines s \<noteq> []"
  by (subst split_lines.simps) simp

lemma forEach_numbered_eq:
  "forEach_numbered i ls = map (\<lambda>j. decimal (Suc (i + j)) @ js '': '' @ ls ! j) [0..<length ls]"
proof (induction ls arbitrary: i)
  case Nil
  then show ?case by simp
next
  case (Cons l ls)
  have "[0..<length (l # ls)] = 0 # map Suc [0..<length ls]"
    by (simp add: upt_conv_Cons map_Suc_upt del: upt_Suc)
  then show ?case using Cons.IH [of "Suc i"] by (simp add: comp_def del: upt_Suc)
qed

lemma listing_eq:
  "forEach_numbered 0 (take k ls) @ (if length ls > k then [more_lines (length ls - k)] else [])
     = listing k ls"
  by (simp add: forEach_numbered_eq listing_def min.commute)

lemma listing_eq_app:
  "forEach_numbered 0 (take k ls)
     @ (if length ls > k then [more_lines (length ls - k)] else []) @ rest
     = listing k ls @ rest"
  using listing_eq [of k ls] by (metis append_assoc)

lemma listing_bounded: "length (listing k ls) \<le> Suc k"
  by (simp add: listing_def)

lemma split_lines_line: "nl \<notin> set l \<Longrightarrow> split_lines l = [l]"
proof -
  assume "nl \<notin> set l"
  then have a: "\<forall>x\<in>set l. x \<noteq> nl" by auto
  have "takeWhile (\<lambda>c. c \<noteq> nl) l = l" using a by (simp add: takeWhile_eq_all_conv)
  moreover have "dropWhile (\<lambda>c. c \<noteq> nl) l = []" using a by simp
  ultimately show ?thesis by (subst split_lines.simps) (simp only: list.case)
qed

lemma split_lines_append:
  "nl \<notin> set l \<Longrightarrow> split_lines (l @ nl # rest) = l # split_lines rest"
proof -
  assume "nl \<notin> set l"
  then have a: "\<forall>x\<in>set l. x \<noteq> nl" by auto
  have "takeWhile (\<lambda>c. c \<noteq> nl) (l @ nl # rest) = l"
    using a by (simp add: takeWhile_tail)
  moreover have "dropWhile (\<lambda>c. c \<noteq> nl) (l @ nl # rest) = nl # rest"
    using a by (simp add: dropWhile_append3)
  ultimately show ?thesis by (subst split_lines.simps) (simp only: list.case)
qed

lemma split_join:
  "ls \<noteq> [] \<Longrightarrow> \<forall>l\<in>set ls. nl \<notin> set l \<Longrightarrow> split_lines (join_lines ls) = ls"
proof (induction ls rule: join_lines.induct)
  case 1
  then show ?case by simp
next
  case (2 l)
  then show ?case by (simp add: split_lines_line)
next
  case (3 l m ls)
  then show ?case by (simp add: split_lines_append)
qed

lemma split_lines_no_nl: "l \<in> set (split_lines s) \<Longrightarrow> nl \<notin> set l"
proof (induction s arbitrary: l rule: split_lines.induct)
  case (1 s)
  have tw: "nl \<notin> set (takeWhile (\<lambda>c. c \<noteq> nl) s)" by (auto dest: set_takeWhileD)
  show ?case
  proof (cases "dropWhile (\<lambda>c. c \<noteq> nl) s")
    case Nil
    have "split_lines s = [takeWhile (\<lambda>c. c \<noteq> nl) s]"
      by (subst split_lines.simps) (simp only: Nil list.case)
    then show ?thesis using 1(2) tw by auto
  next
    case (Cons c rest)
    have "split_lines s = takeWhile (\<lambda>c. c \<noteq> nl) s # split_lines rest"
      by (subst split_lines.simps) (simp only: Cons list.case)
    then show ?thesis using 1(1) [OF Cons] 1(2) tw by auto
  qed
qed

lemma preview_new_lines:
  "split_lines (join_lines (take 15 (split_lines code))) = take 15 (split_lines code)"
proof (rule split_join)
  show "take 15 (split_lines code) \<noteq> []" using split_lines_nonempty by (cases "split_lines code") auto
  show "\<forall>l\<in>set (take 15 (split_lines code)). nl \<notin> set l"
    using split_lines_no_nl by (meson in_set_takeD)
qed


text \<open>
  C8. For an existing target file the preview is the four header lines, the first ten
  lines of the old text numbered from 1 and the count of the lines left out when there
  are more than ten, two header lines, the same for the new text, and a closing rule:
  at most 29 lines are printed whatever the sizes. For a new file the preview is two
  header lines, one block that holds the first fifteen lines of the new text (at most
  fifteen lines), the count of the lines left out when there are more than fifteen, and a
  closing rule.
\<close>

theorem preview_bounded:
  "preview (Some old) new =
     [[nl, 0xD83D, 0xDCCB] @ js '' COMPARACI'' @ [0xD3] @ js ''N DE CAMBIOS:'', replicate 50 0x3D,
      [0xD83D, 0xDD34] @ js '' CONTENIDO ANTERIOR:'', replicate 30 0x2D]
     @ listing 10 (split_lines old)
     @ [[nl, 0xD83D, 0xDFE2] @ js '' CONTENIDO NUEVO:'', replicate 30 0x2D]
     @ listing 10 (split_lines new)
     @ [replicate 50 0x3D]
   \<and> length (listing 10 (split_lines old)) \<le> 11
   \<and> length (listing 10 (split_lines new)) \<le> 11
   \<and> length (preview (Some old) new) \<le> 29
   \<and> preview None new =
     [[nl, 0xD83D, 0xDCCB] @ js '' CONTENIDO DEL NUEVO ARCHIVO:'', replicate 40 0x2D,
      join_lines (take 15 (split_lines new))]
     @ (if 15 < length (split_lines new) then [more_lines (length (split_lines new) - 15)] else [])
     @ [replicate 40 0x2D]
   \<and> split_lines (join_lines (take 15 (split_lines new))) = take 15 (split_lines new)
   \<and> length (split_lines (join_lines (take 15 (split_lines new)))) \<le> 15
   \<and> length (preview None new) \<le> 5"
proof -
  have s: "preview (Some old) new =
     [[nl, 0xD83D, 0xDCCB] @ js '' COMPARACI'' @ [0xD3] @ js ''N DE CAMBIOS:'', replicate 50 0x3D,
      [0xD83D, 0xDD34] @ js '' CONTENIDO ANTERIOR:'', replicate 30 0x2D]
     @ listing 10 (split_lines old)
     @ [[nl, 0xD83D, 0xDFE2] @ js '' CONTENIDO NUEVO:'', replicate 30 0x2D]
     @ listing 10 (split_lines new)
     @ [replicate 50 0x3D]"
    unfolding preview_def showDiff_def Let_def option.case
    by (simp only: listing_eq_app)
  have b: "length (listing 10 (split_lines old)) \<le> 11" "length (listing 10 (split_lines new)) \<le> 11"
    using listing_bounded [of 10] by simp_all
  have t: "length (preview (Some old) new) \<le> 29"
    unfolding s using b by simp
  have n: "preview None new =
     [[nl, 0xD83D, 0xDCCB] @ js '' CONTENIDO DEL NUEVO ARCHIVO:'', replicate 40 0x2D,
      join_lines (take 15 (split_lines new))]
     @ (if 15 < length (split_lines new) then [more_lines (length (split_lines new) - 15)] else [])
     @ [replicate 40 0x2D]"
    by (simp add: preview_def)
  have l: "length (split_lines (join_lines (take 15 (split_lines new)))) \<le> 15"
    by (simp add: preview_new_lines)
  have m: "length (preview None new) \<le> 5"
    unfolding n by simp
  show ?thesis using s b t n preview_new_lines l m by blast
qed

text \<open>An old text of two lines against a new text of twelve, and a new file of
  seventeen lines.\<close>

theorem preview_bounded_witness:
  "listing 10 (split_lines (js ''a\<newline>b'')) = [js ''1: a'', js ''2: b'']
   \<and> listing 10 (split_lines (js ''1\<newline>2\<newline>3\<newline>4\<newline>5\<newline>6\<newline>7\<newline>8\<newline>9\<newline>10\<newline>11\<newline>12''))
     = [js ''1: 1'', js ''2: 2'', js ''3: 3'', js ''4: 4'', js ''5: 5'', js ''6: 6'', js ''7: 7'',
        js ''8: 8'', js ''9: 9'', js ''10: 10'', js ''... y 2 l'' @ [0xED] @ js ''neas m'' @ [0xE1] @ js ''s'']
   \<and> preview (Some (js ''a\<newline>b''))
        (js ''1\<newline>2\<newline>3\<newline>4\<newline>5\<newline>6\<newline>7\<newline>8\<newline>9\<newline>10\<newline>11\<newline>12'')
     = [[nl, 0xD83D, 0xDCCB] @ js '' COMPARACI'' @ [0xD3] @ js ''N DE CAMBIOS:'', replicate 50 0x3D,
        [0xD83D, 0xDD34] @ js '' CONTENIDO ANTERIOR:'', replicate 30 0x2D]
       @ [js ''1: a'', js ''2: b'']
       @ [[nl, 0xD83D, 0xDFE2] @ js '' CONTENIDO NUEVO:'', replicate 30 0x2D]
       @ [js ''1: 1'', js ''2: 2'', js ''3: 3'', js ''4: 4'', js ''5: 5'', js ''6: 6'', js ''7: 7'',
          js ''8: 8'', js ''9: 9'', js ''10: 10'', js ''... y 2 l'' @ [0xED] @ js ''neas m'' @ [0xE1] @ js ''s'']
       @ [replicate 50 0x3D]
   \<and> length (split_lines (join_lines (take 15 (split_lines
        (js ''1\<newline>2\<newline>3\<newline>4\<newline>5\<newline>6\<newline>7\<newline>8\<newline>9\<newline>10\<newline>11\<newline>12\<newline>13\<newline>14\<newline>15\<newline>16\<newline>17''))))) = 15
   \<and> take 15 (split_lines
        (js ''1\<newline>2\<newline>3\<newline>4\<newline>5\<newline>6\<newline>7\<newline>8\<newline>9\<newline>10\<newline>11\<newline>12\<newline>13\<newline>14\<newline>15\<newline>16\<newline>17''))
     = [js ''1'', js ''2'', js ''3'', js ''4'', js ''5'', js ''6'', js ''7'', js ''8'', js ''9'', js ''10'',
        js ''11'', js ''12'', js ''13'', js ''14'', js ''15'']"
proof -
  let ?old = "js ''a\<newline>b''"
  let ?new = "js ''1\<newline>2\<newline>3\<newline>4\<newline>5\<newline>6\<newline>7\<newline>8\<newline>9\<newline>10\<newline>11\<newline>12''"
  let ?long = "js ''1\<newline>2\<newline>3\<newline>4\<newline>5\<newline>6\<newline>7\<newline>8\<newline>9\<newline>10\<newline>11\<newline>12\<newline>13\<newline>14\<newline>15\<newline>16\<newline>17''"
  have o: "listing 10 (split_lines ?old) = [js ''1: a'', js ''2: b'']" by code_simp
  have n: "listing 10 (split_lines ?new)
     = [js ''1: 1'', js ''2: 2'', js ''3: 3'', js ''4: 4'', js ''5: 5'', js ''6: 6'', js ''7: 7'',
        js ''8: 8'', js ''9: 9'', js ''10: 10'', js ''... y 2 l'' @ [0xED] @ js ''neas m'' @ [0xE1] @ js ''s'']"
    by code_simp
  have t: "take 15 (split_lines ?long)
     = [js ''1'', js ''2'', js ''3'', js ''4'', js ''5'', js ''6'', js ''7'', js ''8'', js ''9'', js ''10'',
        js ''11'', js ''12'', js ''13'', js ''14'', js ''15'']"
    by code_simp
  note p = preview_bounded [of ?old ?new, THEN conjunct1]
  note q = preview_bounded [of ?old ?long, THEN conjunct2, THEN conjunct2, THEN conjunct2,
      THEN conjunct2, THEN conjunct2, THEN conjunct1]
  have 1: "preview (Some ?old) ?new
     = [[nl, 0xD83D, 0xDCCB] @ js '' COMPARACI'' @ [0xD3] @ js ''N DE CAMBIOS:'', replicate 50 0x3D,
        [0xD83D, 0xDD34] @ js '' CONTENIDO ANTERIOR:'', replicate 30 0x2D]
       @ [js ''1: a'', js ''2: b'']
       @ [[nl, 0xD83D, 0xDFE2] @ js '' CONTENIDO NUEVO:'', replicate 30 0x2D]
       @ [js ''1: 1'', js ''2: 2'', js ''3: 3'', js ''4: 4'', js ''5: 5'', js ''6: 6'', js ''7: 7'',
          js ''8: 8'', js ''9: 9'', js ''10: 10'', js ''... y 2 l'' @ [0xED] @ js ''neas m'' @ [0xE1] @ js ''s'']
       @ [replicate 50 0x3D]"
    using p unfolding o n .
  have "length (split_lines (join_lines (take 15 (split_lines ?long))))
      = length (take 15 (split_lines ?long))"
    by (simp only: q)
  also have "\<dots> = 15" unfolding t by simp
  finally have 2: "length (split_lines (join_lines (take 15 (split_lines ?long)))) = 15" .
  show ?thesis using o n 1 2 t by blast
qed


end
